theory Spec2Isabelle
  imports Complex_Main
begin

section \<open>Arrays and the numeric primitives the gate library calls\<close>

text \<open>
  The source works on numpy arrays of rank 0, 1 and 2. A rank-2 array is the list of its
  rows (all of one length; the array with no row is the 0 x 0 array), a rank-1 array is
  the list of its entries. Floating-point and complex entries are idealised as elements
  of a commutative ring (the reals where the source takes a square root, the complex
  numbers where a conjugate is needed). Every Python exception is a value of type
  \<open>error\<close>.
\<close>

datatype error = ValueError string | IndexError | UnboundLocalError

datatype 'a ndarray = Num 'a | Vec "'a list" | Mat "'a list list"

definition then_e :: "error + 'a \<Rightarrow> ('a \<Rightarrow> error + 'b) \<Rightarrow> error + 'b" where
  "then_e r f = (case r of Inl e \<Rightarrow> Inl e | Inr x \<Rightarrow> f x)"

text \<open>Python's \<open>[x] * k\<close>: the empty list when \<open>k\<close> is zero or negative.\<close>

definition py_rep :: "'a \<Rightarrow> int \<Rightarrow> 'a list" where
  "py_rep x k = replicate (nat k) x"

subsection \<open>np.kron\<close>

definition scal :: "'a::comm_ring_1 \<Rightarrow> 'a list \<Rightarrow> 'a list" where
  "scal a v = map (\<lambda>b. a * b) v"

definition krow :: "'a::comm_ring_1 list \<Rightarrow> 'a list \<Rightarrow> 'a list" where
  "krow u v = concat (map (\<lambda>a. scal a v) u)"

definition kron_mat :: "'a::comm_ring_1 list list \<Rightarrow> 'a list list \<Rightarrow> 'a list list" where
  "kron_mat A B = concat (map (\<lambda>ra. map (\<lambda>rb. krow ra rb) B) A)"

text \<open>An operand of lower rank is given leading axes of length one, as numpy does.\<close>

fun np_kron :: "'a::comm_ring_1 ndarray \<Rightarrow> 'a ndarray \<Rightarrow> 'a ndarray" where
  "np_kron (Num a) (Num b) = Num (a * b)"
| "np_kron (Num a) (Vec v) = Vec (krow [a] v)"
| "np_kron (Num a) (Mat B) = Mat (kron_mat [[a]] B)"
| "np_kron (Vec u) (Num b) = Vec (krow u [b])"
| "np_kron (Vec u) (Vec v) = Vec (krow u v)"
| "np_kron (Vec u) (Mat B) = Mat (kron_mat [u] B)"
| "np_kron (Mat A) (Num b) = Mat (kron_mat A [[b]])"
| "np_kron (Mat A) (Vec v) = Mat (kron_mat A [v])"
| "np_kron (Mat A) (Mat B) = Mat (kron_mat A B)"

subsection \<open>Addition with broadcasting\<close>

definition ncols :: "'a list list \<Rightarrow> nat" where
  "ncols A = (case A of [] \<Rightarrow> 0 | r # _ \<Rightarrow> length r)"

definition bdim :: "nat \<Rightarrow> nat \<Rightarrow> nat option" where
  "bdim m k = (if m = k then Some m else if m = 1 then Some k
               else if k = 1 then Some m else None)"

definition stretch :: "nat \<Rightarrow> 'a list \<Rightarrow> 'a list" where
  "stretch n xs = (if length xs = n then xs else replicate n (hd xs))"

definition madd :: "'a::comm_ring_1 list list \<Rightarrow> 'a list list \<Rightarrow> 'a list list" where
  "madd A B = map2 (map2 (\<lambda>a b. a + b)) A B"

definition np_add_mat ::
  "'a::comm_ring_1 list list \<Rightarrow> 'a list list \<Rightarrow> error + 'a list list" where
  "np_add_mat A B =
     (case (bdim (length A) (length B), bdim (ncols A) (ncols B)) of
        (Some r, Some c) \<Rightarrow>
          Inr (madd (stretch r (map (stretch c) A)) (stretch r (map (stretch c) B)))
      | _ \<Rightarrow> Inl (ValueError ''operands could not be broadcast together''))"

fun np_add :: "'a::comm_ring_1 ndarray \<Rightarrow> 'a ndarray \<Rightarrow> error + 'a ndarray" where
  "np_add (Num a) (Num b) = Inr (Num (a + b))"
| "np_add (Num a) (Vec v) = Inr (Vec (map (\<lambda>x. a + x) v))"
| "np_add (Num a) (Mat B) = Inr (Mat (map (map (\<lambda>x. a + x)) B))"
| "np_add (Vec u) (Num b) = Inr (Vec (map (\<lambda>x. x + b) u))"
| "np_add (Vec u) (Vec v) = then_e (np_add_mat [u] [v]) (\<lambda>M. Inr (Vec (hd M)))"
| "np_add (Vec u) (Mat B) = then_e (np_add_mat [u] B) (\<lambda>M. Inr (Mat M))"
| "np_add (Mat A) (Num b) = Inr (Mat (map (map (\<lambda>x. x + b)) A))"
| "np_add (Mat A) (Vec v) = then_e (np_add_mat A [v]) (\<lambda>M. Inr (Mat M))"
| "np_add (Mat A) (Mat B) = then_e (np_add_mat A B) (\<lambda>M. Inr (Mat M))"

subsection \<open>np.outer and the matrix product \<open>@\<close>\<close>

fun flatten :: "'a ndarray \<Rightarrow> 'a list" where
  "flatten (Num a) = [a]"
| "flatten (Vec v) = v"
| "flatten (Mat A) = concat A"

definition np_outer :: "'a::comm_ring_1 ndarray \<Rightarrow> 'a ndarray \<Rightarrow> 'a ndarray" where
  "np_outer a b = Mat (map (\<lambda>x. scal x (flatten b)) (flatten a))"

definition dotv :: "'a::comm_ring_1 list \<Rightarrow> 'a list \<Rightarrow> 'a" where
  "dotv u v = sum_list (map2 (\<lambda>a b. a * b) u v)"

definition transp :: "'a list list \<Rightarrow> 'a list list" where
  "transp A = map (\<lambda>j. map (\<lambda>r. r ! j) A) [0..<ncols A]"

definition mmul :: "'a::comm_ring_1 list list \<Rightarrow> 'a list list \<Rightarrow> 'a list list" where
  "mmul A B = map (\<lambda>r. map (\<lambda>c. dotv r c) (transp B)) A"

definition mismatch :: error where
  "mismatch = ValueError ''matmul: Input operand 1 has a mismatch in its core dimension 0''"

definition no_dims :: error where
  "no_dims = ValueError ''matmul: Input operand does not have enough dimensions''"

fun np_matmul :: "'a::comm_ring_1 ndarray \<Rightarrow> 'a ndarray \<Rightarrow> error + 'a ndarray" where
  "np_matmul (Num a) _ = Inl no_dims"
| "np_matmul _ (Num b) = Inl no_dims"
| "np_matmul (Vec u) (Vec v) =
     (if length u = length v then Inr (Num (dotv u v)) else Inl mismatch)"
| "np_matmul (Vec u) (Mat B) =
     (if length u = length B then Inr (Vec (map (\<lambda>c. dotv u c) (transp B)))
      else Inl mismatch)"
| "np_matmul (Mat A) (Vec v) =
     (if ncols A = length v then Inr (Vec (map (\<lambda>r. dotv r v) A)) else Inl mismatch)"
| "np_matmul (Mat A) (Mat B) =
     (if ncols A = length B then Inr (Mat (mmul A B)) else Inl mismatch)"

section \<open>The gate library\<close>

subsection \<open>Successive Kronecker product\<close>

text \<open>
  \<open>operators[0]\<close> raises IndexError on the empty list; the loop over
  \<open>operators[1:]\<close> is a left fold.
\<close>

fun kron :: "'a::comm_ring_1 ndarray list \<Rightarrow> error + 'a ndarray" where
  "kron [] = Inl IndexError"
| "kron (r # ops) = Inr (foldl np_kron r ops)"

subsection \<open>Basis catalog\<close>

definition zero :: "'a::comm_ring_1 ndarray" where
  "zero = Vec [1, 0]"

definition one :: "'a::comm_ring_1 ndarray" where
  "one = Vec [0, 1]"

definition I :: "'a::comm_ring_1 ndarray" where
  "I = Mat [[1, 0], [0, 1]]"

definition X :: "'a::comm_ring_1 ndarray" where
  "X = Mat [[0, 1], [1, 0]]"

definition H :: "real ndarray" where
  "H = Mat [[1 / sqrt 2 * 1, 1 / sqrt 2 * 1], [1 / sqrt 2 * 1, 1 / sqrt 2 * (- 1)]]"

definition cnot :: "'a::comm_ring_1 ndarray" where
  "cnot = Mat [[1, 0, 0, 0], [0, 1, 0, 0], [0, 0, 0, 1], [0, 0, 1, 0]]"

subsection \<open>Embedding and controlled gates\<close>

definition add_gate :: "'a::comm_ring_1 ndarray \<Rightarrow> int \<Rightarrow> int \<Rightarrow> error + 'a ndarray" where
  "add_gate gate targetq num_qubits =
     (let start_pad = targetq;
          end_pad = num_qubits - (targetq + 1)
      in kron (py_rep I start_pad @ [gate] @ py_rep I end_pad))"

definition control_gate ::
  "'a::comm_ring_1 ndarray \<Rightarrow> int \<Rightarrow> int \<Rightarrow> int \<Rightarrow> error + 'a ndarray" where
  "control_gate gate control_qubit target_qubit num_qubits =
     (if control_qubit = target_qubit
      then Inl (ValueError ''Control and Target qubits must be different.'')
      else if \<not> (0 \<le> control_qubit \<and> control_qubit \<le> num_qubits)
              \<or> \<not> (0 \<le> target_qubit \<and> target_qubit \<le> num_qubits)
      then Inl (ValueError ''Error'')
      else if control_qubit < target_qubit
      then then_e (add_gate (np_outer zero zero) control_qubit num_qubits) (\<lambda>a.
           then_e (kron (py_rep I control_qubit @ [np_outer one one]
                         @ py_rep I (target_qubit - control_qubit - 1) @ [gate]
                         @ py_rep I (num_qubits - target_qubit - 1))) (\<lambda>b.
           np_add a b))
      else then_e (add_gate (np_outer zero zero) control_qubit num_qubits) (\<lambda>a.
           then_e (kron (py_rep I target_qubit @ [gate]
                         @ py_rep I (control_qubit - target_qubit - 1) @ [np_outer one one]
                         @ py_rep I (num_qubits - control_qubit - 1))) (\<lambda>b.
           np_add a b)))"

definition cnot_adj :: "int \<Rightarrow> int \<Rightarrow> int \<Rightarrow> error + 'a::comm_ring_1 ndarray" where
  "cnot_adj controlq targetq num_qubits =
     (if targetq \<noteq> controlq + 1
      then Inl (ValueError ''Control and Target qubits must be adjacent.'')
      else let start_padding = controlq;
               end_padding = num_qubits - (targetq + 1)
           in kron (py_rep I start_padding @ [cnot] @ py_rep I end_padding))"

definition cnot_nonadj :: "int \<Rightarrow> int \<Rightarrow> int \<Rightarrow> error + 'a::comm_ring_1 ndarray" where
  "cnot_nonadj control_qubit target_qubit num_qubits =
     (if control_qubit = target_qubit
      then Inl (ValueError ''Control and Target qubits must be different.'')
      else if \<not> (0 \<le> control_qubit \<and> control_qubit \<le> num_qubits)
              \<or> \<not> (0 \<le> target_qubit \<and> target_qubit \<le> num_qubits)
      then Inl (ValueError ''Error'')
      else if control_qubit < target_qubit
      then then_e (kron (py_rep I control_qubit @ [np_outer zero zero]
                         @ py_rep I (num_qubits - control_qubit - 1))) (\<lambda>a.
           then_e (kron (py_rep I control_qubit @ [np_outer one one]
                         @ py_rep I (target_qubit - control_qubit - 1) @ [X]
                         @ py_rep I (num_qubits - target_qubit - 1))) (\<lambda>b.
           np_add a b))
      else then_e (kron (py_rep I control_qubit @ [np_outer zero zero]
                         @ py_rep I (num_qubits - control_qubit - 1))) (\<lambda>a.
           then_e (kron (py_rep I target_qubit @ [X]
                         @ py_rep I (control_qubit - target_qubit - 1) @ [np_outer one one]
                         @ py_rep I (num_qubits - control_qubit - 1))) (\<lambda>b.
           np_add a b)))"

subsection \<open>GHZ state\<close>

text \<open>The loop \<open>for i in range(num_qubits - 1)\<close>, over the list of its indices.\<close>

fun ghz_loop :: "int list \<Rightarrow> int \<Rightarrow> 'a::comm_ring_1 ndarray \<Rightarrow> error + 'a ndarray" where
  "ghz_loop [] num_qubits ghz_state = Inr ghz_state"
| "ghz_loop (i # rest) num_qubits ghz_state =
     then_e (cnot_adj i (i + 1) num_qubits) (\<lambda>U.
     then_e (np_matmul U ghz_state) (\<lambda>ghz_state'.
     ghz_loop rest num_qubits ghz_state'))"

definition generate_ghz_state :: "int \<Rightarrow> error + real ndarray" where
  "generate_ghz_state num_qubits =
     then_e (kron (py_rep zero num_qubits)) (\<lambda>ghz_state.
     then_e (add_gate H 0 num_qubits) (\<lambda>U.
     then_e (np_matmul U ghz_state) (\<lambda>ghz_state'.
     ghz_loop [0..num_qubits - 2] num_qubits ghz_state')))"

subsection \<open>Toffoli\<close>

definition sum4 ::
  "error + 'a::comm_ring_1 ndarray \<Rightarrow> error + 'a ndarray \<Rightarrow> error + 'a ndarray
     \<Rightarrow> error + 'a ndarray \<Rightarrow> error + 'a ndarray" where
  "sum4 term1 term2 term3 term4 =
     then_e term1 (\<lambda>t1. then_e term2 (\<lambda>t2. then_e term3 (\<lambda>t3. then_e term4 (\<lambda>t4.
     then_e (np_add t1 t2) (\<lambda>s12. then_e (np_add s12 t3) (\<lambda>s123. np_add s123 t4))))))"

definition TOFFOLI :: "int \<Rightarrow> int \<Rightarrow> int \<Rightarrow> int \<Rightarrow> error + 'a::comm_ring_1 ndarray" where
  "TOFFOLI control1 control2 target num_qubits =
     (if control1 = target \<or> control2 = target
      then Inl (ValueError ''Control and Target qubits must be different.'')
      else if \<not> (0 \<le> control1 \<and> control1 \<le> num_qubits - 1)
              \<or> \<not> (0 \<le> target \<and> target \<le> num_qubits - 1)
              \<or> \<not> (0 \<le> control2 \<and> control2 \<le> num_qubits - 1)
      then Inl (ValueError ''Control and target qubits must be within range'')
      else let c1 = min control1 control2; c2 = max control1 control2;
               P0 = np_outer zero zero; P1 = np_outer one one in
      if c2 < target then
        sum4
          (kron (py_rep I c1 @ [P0] @ py_rep I (c2 - c1 - 1) @ [P0]
                 @ py_rep I (target - c2 - 1) @ [I] @ py_rep I (num_qubits - target - 1)))
          (kron (py_rep I c1 @ [P1] @ py_rep I (c2 - c1 - 1) @ [P0]
                 @ py_rep I (target - c2 - 1) @ [I] @ py_rep I (num_qubits - target - 1)))
          (kron (py_rep I c1 @ [P0] @ py_rep I (c2 - c1 - 1) @ [P1]
                 @ py_rep I (target - c2 - 1) @ [I] @ py_rep I (num_qubits - target - 1)))
          (kron (py_rep I c1 @ [P1] @ py_rep I (c2 - c1 - 1) @ [P1]
                 @ py_rep I (target - c2 - 1) @ [X] @ py_rep I (num_qubits - target - 1)))
      else if c1 < target \<and> target < c2 then
        sum4
          (kron (py_rep I c1 @ [P0] @ py_rep I (target - c1 - 1) @ [I]
                 @ py_rep I (c2 - target - 1) @ [P0] @ py_rep I (num_qubits - c2 - 1)))
          (kron (py_rep I c1 @ [P1] @ py_rep I (target - c1 - 1) @ [I]
                 @ py_rep I (c2 - target - 1) @ [P0] @ py_rep I (num_qubits - c2 - 1)))
          (kron (py_rep I c1 @ [P0] @ py_rep I (target - c1 - 1) @ [I]
                 @ py_rep I (c2 - target - 1) @ [P1] @ py_rep I (num_qubits - c2 - 1)))
          (kron (py_rep I c1 @ [P1] @ py_rep I (target - c1 - 1) @ [X]
                 @ py_rep I (c2 - target - 1) @ [P1] @ py_rep I (num_qubits - c2 - 1)))
      else if target < c1 then
        sum4
          (kron (py_rep I target @ [I] @ py_rep I (c1 - target - 1) @ [P0]
                 @ py_rep I (c2 - c1 - 1) @ [P0] @ py_rep I (num_qubits - c2 - 1)))
          (kron (py_rep I target @ [I] @ py_rep I (c1 - target - 1) @ [P1]
                 @ py_rep I (c2 - c1 - 1) @ [P0] @ py_rep I (num_qubits - c2 - 1)))
          (kron (py_rep I target @ [I] @ py_rep I (c1 - target - 1) @ [P0]
                 @ py_rep I (c2 - c1 - 1) @ [P1] @ py_rep I (num_qubits - c2 - 1)))
          (kron (py_rep I target @ [X] @ py_rep I (c1 - target - 1) @ [P1]
                 @ py_rep I (c2 - c1 - 1) @ [P1] @ py_rep I (num_qubits - c2 - 1)))
      else Inl UnboundLocalError)"

lemmas gate_defs =
  then_e_def py_rep_def np_outer_def zero_def one_def I_def X_def cnot_def
  kron_mat_def krow_def scal_def np_add_mat_def bdim_def ncols_def stretch_def
  madd_def dotv_def

section \<open>Matrices as lists of rows: auxiliary notions\<close>

text \<open>An \<open>r x c\<close> matrix: \<open>r\<close> rows, each of length \<open>c\<close>.\<close>

definition mat :: "nat \<Rightarrow> nat \<Rightarrow> 'a list list \<Rightarrow> bool" where
  "mat r c A = (length A = r \<and> (\<forall>row \<in> set A. length row = c))"

text \<open>Entrywise sum of two rows.\<close>

definition vadd :: "'a::comm_ring_1 list \<Rightarrow> 'a list \<Rightarrow> 'a list" where
  "vadd u v = map2 (\<lambda>a b. a + b) u v"

text \<open>The Kronecker product of a list of matrices, left to right, from the 1 x 1 unit; on a non-empty list of rank-2 arrays it is what \<open>kron\<close> returns.\<close>

definition kronL :: "'a::comm_ring_1 list list list \<Rightarrow> 'a list list" where
  "kronL Ms = foldl kron_mat [[1]] Ms"

text \<open>The \<open>n x n\<close> identity matrix.\<close>

definition ident :: "nat \<Rightarrow> 'a::comm_ring_1 list list" where
  "ident n = map (\<lambda>i. map (\<lambda>j. if i = j then 1 else 0) [0..<n]) [0..<n]"

text \<open>The rows of an array, seen as a rank-2 array.\<close>

fun rows :: "'a ndarray \<Rightarrow> 'a list list" where
  "rows (Num a) = [[a]]"
| "rows (Vec v) = [v]"
| "rows (Mat A) = A"

fun is_Mat :: "'a ndarray \<Rightarrow> bool" where
  "is_Mat (Mat A) = True"
| "is_Mat _ = False"

text \<open>The rows of the catalog entries \<open>I\<close>, \<open>np.outer(zero, zero)\<close>, \<open>np.outer(one, one)\<close> and \<open>X\<close>.\<close>

definition I2 :: "'a::comm_ring_1 list list" where
  "I2 = [[1, 0], [0, 1]]"

definition P0 :: "'a::comm_ring_1 list list" where
  "P0 = [[1, 0], [0, 0]]"

definition P1 :: "'a::comm_ring_1 list list" where
  "P1 = [[0, 0], [0, 1]]"

definition Xm :: "'a::comm_ring_1 list list" where
  "Xm = [[0, 1], [1, 0]]"

text \<open>The tensor product over the positions \<open>0, ..., n - 1\<close> of a register, with the factor \<open>f i\<close> at position \<open>i\<close> (position 0 leftmost).\<close>

definition tensor_at :: "nat \<Rightarrow> (nat \<Rightarrow> 'a::comm_ring_1 list list) \<Rightarrow> 'a list list" where
  "tensor_at n f = kronL (map f [0..<n])"

text \<open>A rank-2 array of shape 2 x 2.\<close>

definition gate2 :: "'a ndarray \<Rightarrow> bool" where
  "gate2 x = (is_Mat x \<and> mat 2 2 (rows x))"

text \<open>The rows of the catalog entry \<open>cnot\<close>.\<close>

definition cnotm :: "'a::comm_ring_1 list list" where
  "cnotm = [[1, 0, 0, 0], [0, 1, 0, 0], [0, 0, 0, 1], [0, 0, 1, 0]]"

text \<open>The 0/1 matrix whose row \<open>i\<close> has its 1 in column \<open>p ! i\<close>.\<close>

definition perm_mat :: "nat list \<Rightarrow> 'a::comm_ring_1 list list" where
  "perm_mat p = map (\<lambda>k. (replicate (length p) 0)[k := 1]) p"

text \<open>The conjugate transpose, the zero matrix, and unitarity: a matrix times its conjugate transpose is the identity.\<close>

definition dagger :: "complex list list \<Rightarrow> complex list list" where
  "dagger A = map (map cnj) (transp A)"

definition zeros :: "nat \<Rightarrow> nat \<Rightarrow> 'a::comm_ring_1 list list" where
  "zeros r c = replicate r (replicate c 0)"

definition unitary :: "complex list list \<Rightarrow> bool" where
  "unitary A = (mmul A (dagger A) = ident (length A))"

text \<open>Three factors at three positions, the identity elsewhere; and the four-term sum the Toffoli decomposition builds, with the projector pairs 00, 10, 01, 11 at the sorted controls and \<open>X\<close> at the target in the last term only.\<close>

definition place3 ::
  "nat \<Rightarrow> nat \<Rightarrow> nat \<Rightarrow> 'a::comm_ring_1 list list \<Rightarrow> 'a list list \<Rightarrow> 'a list list
     \<Rightarrow> nat \<Rightarrow> 'a list list" where
  "place3 a b d y z w i = (if i = a then y else if i = b then z else if i = d then w else I2)"

definition toffoli_sum :: "nat \<Rightarrow> nat \<Rightarrow> nat \<Rightarrow> nat \<Rightarrow> 'a::comm_ring_1 list list" where
  "toffoli_sum n c1 c2 t =
     madd (madd (madd (tensor_at n (place3 c1 c2 t P0 P0 I2))
                      (tensor_at n (place3 c1 c2 t P1 P0 I2)))
                (tensor_at n (place3 c1 c2 t P0 P1 I2)))
          (tensor_at n (place3 c1 c2 t P1 P1 Xm))"

text \<open>Matrix times vector, as \<open>@\<close> computes it on a rank-2 and a rank-1 array.\<close>

definition mv :: "'a::comm_ring_1 list list \<Rightarrow> 'a list \<Rightarrow> 'a list" where
  "mv A v = map (\<lambda>r. dotv r v) A"

text \<open>The Kronecker product of a list of vectors, left to right.\<close>

definition vkron :: "'a::comm_ring_1 list list \<Rightarrow> 'a list" where
  "vkron vs = foldl krow [1] vs"

text \<open>The basis vector of one qubit, and the list of catalog vectors \<open>zero\<close>, \<open>one\<close> whose \<open>kron\<close> is the basis vector of a register state.\<close>

definition ket :: "bool \<Rightarrow> 'a::comm_ring_1 list" where
  "ket b = (if b then [0, 1] else [1, 0])"

definition basis :: "bool list \<Rightarrow> 'a::comm_ring_1 ndarray list" where
  "basis bs = map (\<lambda>b. if b then one else zero) bs"

fun is_Vec :: "'a ndarray \<Rightarrow> bool" where
  "is_Vec (Vec v) = True"
| "is_Vec _ = False"

section \<open>Lemmas\<close>

lemma length_scal [simp]: "length (scal a v) = length v"
  by (simp add: scal_def)

lemma krow_Nil [simp]: "krow [] v = []"
  by (simp add: krow_def)

lemma krow_Cons [simp]: "krow (a # u) v = scal a v @ krow u v"
  by (simp add: krow_def)

lemma krow_append: "krow (u @ u') v = krow u v @ krow u' v"
  by (simp add: krow_def)

lemma length_krow [simp]: "length (krow u v) = length u * length v"
  by (induction u) simp_all

lemma kron_mat_Nil [simp]: "kron_mat [] B = []"
  by (simp add: kron_mat_def)

lemma kron_mat_Cons [simp]: "kron_mat (r # A) B = map (krow r) B @ kron_mat A B"
  by (simp add: kron_mat_def)

lemma kron_mat_append: "kron_mat (A @ A') B = kron_mat A B @ kron_mat A' B"
  by (simp add: kron_mat_def)

lemma length_kron_mat [simp]: "length (kron_mat A B) = length A * length B"
  by (induction A) simp_all

lemma set_kron_mat: "set (kron_mat A B) = {krow ra rb | ra rb. ra \<in> set A \<and> rb \<in> set B}"
  by (auto simp: kron_mat_def)

lemma mat_kron_mat:
  assumes "mat r1 c1 A" "mat r2 c2 B"
  shows "mat (r1 * r2) (c1 * c2) (kron_mat A B)"
  using assms by (auto simp: mat_def set_kron_mat)

lemma mat_Nil [simp]: "mat r c [] = (r = 0)"
  by (auto simp: mat_def)

lemma mat_Cons: "mat r c (x # A) = (length x = c \<and> (\<exists>r'. r = Suc r' \<and> mat r' c A))"
  by (cases r) (auto simp: mat_def)

lemma ncols_mat: "mat r c A \<Longrightarrow> 0 < r \<Longrightarrow> ncols A = c"
  by (cases A) (auto simp: ncols_def mat_def)

lemma np_add_mat_same:
  assumes "mat r c A" "mat r c B"
  shows "np_add_mat A B = Inr (madd A B)"
proof (cases "r = 0")
  case True
  with assms show ?thesis
    by (simp add: mat_def np_add_mat_def bdim_def stretch_def ncols_def madd_def)
next
  case False
  then have nc: "ncols A = c" "ncols B = c"
    using assms by (simp_all add: ncols_mat)
  have "map (stretch c) A = A" "map (stretch c) B = B"
    using assms by (simp_all add: mat_def stretch_def map_idI)
  then show ?thesis
    using assms nc by (simp add: np_add_mat_def bdim_def stretch_def mat_def)
qed

lemma scal_one [simp]: "scal 1 v = v"
  by (simp add: scal_def)

lemma krow_one_right [simp]: "krow u [1] = u"
  by (induction u) (simp_all add: scal_def)

lemma krow_one_left [simp]: "krow [1] v = v"
  by simp

lemma map_krow_one [simp]: "map (krow [1]) B = B"
  by (simp add: map_idI)

lemma kron_mat_unit_left: "kron_mat [[1]] B = B"
  by simp

lemma kron_mat_unit_right [simp]: "kron_mat A [[1]] = A"
  by (induction A) simp_all

lemma scal_scal: "scal a (scal b v) = scal (a * b) v"
  by (simp add: scal_def mult.assoc)

lemma scal_append: "scal a (u @ v) = scal a u @ scal a v"
  by (simp add: scal_def)

lemma scal_Nil [simp]: "scal a [] = []"
  by (simp add: scal_def)

lemma scal_Cons [simp]: "scal a (b # v) = a * b # scal a v"
  by (simp add: scal_def)

lemma scal_krow: "scal a (krow u v) = krow (scal a u) v"
  by (induction u) (simp_all add: scal_append scal_scal)

lemma krow_assoc: "krow (krow u v) w = krow u (krow v w)"
  by (induction u) (simp_all add: krow_append scal_krow)

lemma kron_mat_map_krow:
  "kron_mat (map (krow ra) B) C = map (krow ra) (kron_mat B C)"
  by (induction B) (simp_all add: krow_assoc)

lemma kron_mat_assoc: "kron_mat (kron_mat A B) C = kron_mat A (kron_mat B C)"
  by (induction A) (simp_all add: kron_mat_append kron_mat_map_krow)

lemma kronL_Nil [simp]: "kronL [] = [[1]]"
  by (simp add: kronL_def)

lemma kronL_snoc [simp]: "kronL (Ms @ [M]) = kron_mat (kronL Ms) M"
  by (simp add: kronL_def)

lemma kronL_append: "kronL (As @ Bs) = kron_mat (kronL As) (kronL Bs)"
proof (induction Bs rule: rev_induct)
  case Nil
  show ?case by simp
next
  case (snoc B Bs)
  have "kronL (As @ Bs @ [B]) = kron_mat (kronL (As @ Bs)) B"
    using kronL_snoc [of "As @ Bs" B] by simp
  then show ?case
    by (simp add: snoc.IH kron_mat_assoc)
qed

lemma kronL_single [simp]: "kronL [M] = M"
  using kronL_snoc [of "[]" M] by simp

lemma kronL_Cons: "kronL (M # Ms) = kron_mat M (kronL Ms)"
  using kronL_append [of "[M]" Ms] by simp

lemma foldl_np_kron_Mat: "foldl np_kron (Mat M) (map Mat Ms) = Mat (foldl kron_mat M Ms)"
  by (induction Ms arbitrary: M) simp_all

lemma foldl_kron_mat: "foldl kron_mat M Ms = kron_mat M (kronL Ms)"
proof (induction Ms rule: rev_induct)
  case Nil
  show ?case by simp
next
  case (snoc B Bs)
  then show ?case by (simp add: kron_mat_assoc)
qed

lemma kron_Mat:
  assumes "Ms \<noteq> []"
  shows "kron (map Mat Ms) = Inr (Mat (kronL Ms))"
proof -
  obtain M Ms' where "Ms = M # Ms'" using assms by (cases Ms) auto
  then show ?thesis
    by (simp add: foldl_np_kron_Mat foldl_kron_mat kronL_Cons)
qed

lemma mat_kronL:
  assumes "\<forall>M \<in> set Ms. mat 2 2 M"
  shows "mat (2 ^ length Ms) (2 ^ length Ms) (kronL Ms)"
  using assms
proof (induction Ms rule: rev_induct)
  case Nil
  show ?case by (simp add: mat_def)
next
  case (snoc M Ms)
  then have "mat (2 ^ length Ms) (2 ^ length Ms) (kronL Ms)" "mat 2 2 M"
    by simp_all
  then have "mat (2 ^ length Ms * 2) (2 ^ length Ms * 2) (kron_mat (kronL Ms) M)"
    by (rule mat_kron_mat)
  then show ?case by (simp add: mult.commute)
qed

lemma I_Mat: "I = Mat I2"
  by (simp add: I_def I2_def)

lemma X_Mat: "X = Mat Xm"
  by (simp add: X_def Xm_def)

lemma outer_zero: "np_outer zero zero = Mat P0"
  by (simp add: np_outer_def zero_def P0_def)

lemma outer_one: "np_outer one one = Mat P1"
  by (simp add: np_outer_def one_def P1_def)

lemma mat_I2 [simp]: "mat 2 2 I2"
  by (simp add: mat_def I2_def)

lemma mat_P0 [simp]: "mat 2 2 P0"
  by (simp add: mat_def P0_def)

lemma mat_P1 [simp]: "mat 2 2 P1"
  by (simp add: mat_def P1_def)

lemma mat_Xm [simp]: "mat 2 2 Xm"
  by (simp add: mat_def Xm_def)

lemma foldl_np_kron_rows:
  "\<forall>x \<in> set xs. is_Mat x \<Longrightarrow>
   foldl np_kron (Mat M) xs = Mat (foldl kron_mat M (map rows xs))"
proof (induction xs arbitrary: M)
  case Nil
  show ?case by simp
next
  case (Cons x xs)
  then obtain A where "x = Mat A" by (cases x) auto
  with Cons show ?case by simp
qed

lemma kron_rows:
  assumes "xs \<noteq> []" "\<forall>x \<in> set xs. is_Mat x"
  shows "kron xs = Inr (Mat (kronL (map rows xs)))"
proof -
  obtain x xs' where xs: "xs = x # xs'" using assms(1) by (cases xs) auto
  then obtain A where x: "x = Mat A" using assms(2) by (cases x) auto
  have "\<forall>y \<in> set xs'. is_Mat y" using assms(2) xs by simp
  then show ?thesis
    by (simp add: xs x foldl_np_kron_rows foldl_kron_mat kronL_Cons)
qed

lemma py_rep_simps [simp]:
  "set (py_rep x k) \<subseteq> {x}" "map f (py_rep x k) = replicate (nat k) (f x)"
  "length (py_rep x k) = nat k"
  by (auto simp: py_rep_def)

lemma map_const_upt:
  assumes "\<And>i. a \<le> i \<Longrightarrow> i < b \<Longrightarrow> f i = x"
  shows "map f [a..<b] = replicate (b - a) x"
proof -
  have "map f [a..<b] = map (\<lambda>_. x) [a..<b]"
    by (rule map_cong) (auto simp: assms)
  then show ?thesis by (simp add: map_replicate_const)
qed

lemma upt_split: "a < n \<Longrightarrow> [0..<n] = [0..<a] @ a # [Suc a..<n]"
  by (metis less_imp_le_nat upt_add_eq_append upt_conv_Cons le0 le_add_diff_inverse plus_nat.add_0)

lemma upt_split': "a \<le> b \<Longrightarrow> b < n \<Longrightarrow> [a..<n] = [a..<b] @ b # [Suc b..<n]"
  by (metis less_imp_le_nat upt_add_eq_append upt_conv_Cons le_add_diff_inverse)

lemma pad1:
  assumes "a < n"
  shows "replicate a x @ [y] @ replicate (n - a - 1) x
         = map (\<lambda>i. if i = a then y else x) [0..<n]"
proof -
  let ?f = "\<lambda>i. if i = a then y else x"
  have "map ?f [0..<n] = map ?f [0..<a] @ ?f a # map ?f [Suc a..<n]"
    by (simp add: upt_split' [OF _ assms])
  moreover have "map ?f [0..<a] = replicate (a - 0) x"
    by (rule map_const_upt) simp
  moreover have "map ?f [Suc a..<n] = replicate (n - Suc a) x"
    by (rule map_const_upt) simp
  ultimately show ?thesis by simp
qed

lemma pad2:
  assumes "a < b" "b < n"
  shows "replicate a x @ [y] @ replicate (b - a - 1) x @ [z] @ replicate (n - b - 1) x
         = map (\<lambda>i. if i = a then y else if i = b then z else x) [0..<n]"
proof -
  let ?f = "\<lambda>i. if i = a then y else if i = b then z else x"
  have an: "a < n" using assms by simp
  have "[0..<n] = [0..<a] @ a # [Suc a..<n]"
    by (simp add: upt_split' [OF _ an])
  moreover have "[Suc a..<n] = [Suc a..<b] @ b # [Suc b..<n]"
    using assms by (intro upt_split') simp_all
  ultimately have "map ?f [0..<n]
      = map ?f [0..<a] @ ?f a # map ?f [Suc a..<b] @ ?f b # map ?f [Suc b..<n]"
    by simp
  moreover have "map ?f [0..<a] = replicate (a - 0) x"
    by (rule map_const_upt) (use assms in simp)
  moreover have "map ?f [Suc a..<b] = replicate (b - Suc a) x"
    by (rule map_const_upt) simp
  moreover have "map ?f [Suc b..<n] = replicate (n - Suc b) x"
    by (rule map_const_upt) (use assms in simp)
  ultimately show ?thesis using assms by simp
qed

lemma pad3:
  assumes "a < b" "b < d" "d < n"
  shows "replicate a x @ [y] @ replicate (b - a - 1) x @ [z] @ replicate (d - b - 1) x
           @ [w] @ replicate (n - d - 1) x
         = map (\<lambda>i. if i = a then y else if i = b then z else if i = d then w else x) [0..<n]"
proof -
  let ?f = "\<lambda>i. if i = a then y else if i = b then z else if i = d then w else x"
  have an: "a < n" using assms by simp
  have "[0..<n] = [0..<a] @ a # [Suc a..<n]"
    by (simp add: upt_split' [OF _ an])
  moreover have "[Suc a..<n] = [Suc a..<b] @ b # [Suc b..<n]"
    using assms by (intro upt_split') simp_all
  moreover have "[Suc b..<n] = [Suc b..<d] @ d # [Suc d..<n]"
    using assms by (intro upt_split') simp_all
  ultimately have "map ?f [0..<n]
      = map ?f [0..<a] @ ?f a # map ?f [Suc a..<b] @ ?f b # map ?f [Suc b..<d]
        @ ?f d # map ?f [Suc d..<n]"
    by simp
  moreover have "map ?f [0..<a] = replicate (a - 0) x"
    by (rule map_const_upt) (use assms in simp)
  moreover have "map ?f [Suc a..<b] = replicate (b - Suc a) x"
    by (rule map_const_upt) (use assms in simp)
  moreover have "map ?f [Suc b..<d] = replicate (d - Suc b) x"
    by (rule map_const_upt) (use assms in simp)
  moreover have "map ?f [Suc d..<n] = replicate (n - Suc d) x"
    by (rule map_const_upt) (use assms in simp)
  ultimately show ?thesis using assms by simp
qed

lemma mat_tensor_at:
  assumes "\<And>i. i < n \<Longrightarrow> mat 2 2 (f i)"
  shows "mat (2 ^ n) (2 ^ n) (tensor_at n f)"
  using mat_kronL [of "map f [0..<n]"] assms by (simp add: tensor_at_def)

lemma mat_madd:
  assumes "mat r c A" "mat r c B"
  shows "mat r c (madd A B)"
  using assms by (auto simp: mat_def madd_def in_set_zip)

lemma np_add_Mat:
  assumes "mat r c A" "mat r c B"
  shows "np_add (Mat A) (Mat B) = Inr (Mat (madd A B))"
  by (simp add: np_add_mat_same [OF assms] then_e_def)

lemma kron_pad1:
  assumes "0 \<le> a" "a < n"
  shows "kron (py_rep I a @ [Mat Y] @ py_rep I (n - a - 1))
         = Inr (Mat (tensor_at (nat n) (\<lambda>i. if i = nat a then Y else I2)))"
proof -
  let ?xs = "py_rep I a @ [Mat Y] @ py_rep I (n - a - 1)"
  have m: "\<forall>x \<in> set ?xs. is_Mat x"
    by (auto simp: py_rep_def I_Mat)
  have "map rows ?xs = replicate (nat a) I2 @ [Y] @ replicate (nat n - nat a - 1) I2"
    using assms by (simp add: I_Mat nat_diff_distrib)
  also have "\<dots> = map (\<lambda>i. if i = nat a then Y else I2) [0..<nat n]"
    using assms by (intro pad1) simp
  finally show ?thesis
    using kron_rows [OF _ m] by (simp add: tensor_at_def)
qed

lemma kron_pad2:
  assumes "0 \<le> a" "a < b" "b < n"
  shows "kron (py_rep I a @ [Mat Y] @ py_rep I (b - a - 1) @ [Mat Z] @ py_rep I (n - b - 1))
         = Inr (Mat (tensor_at (nat n)
                      (\<lambda>i. if i = nat a then Y else if i = nat b then Z else I2)))"
proof -
  let ?xs = "py_rep I a @ [Mat Y] @ py_rep I (b - a - 1) @ [Mat Z] @ py_rep I (n - b - 1)"
  have m: "\<forall>x \<in> set ?xs. is_Mat x"
    by (auto simp: py_rep_def I_Mat)
  have "map rows ?xs = replicate (nat a) I2 @ [Y] @ replicate (nat b - nat a - 1) I2 @ [Z]
                       @ replicate (nat n - nat b - 1) I2"
    using assms by (simp add: I_Mat nat_diff_distrib)
  also have "\<dots> = map (\<lambda>i. if i = nat a then Y else if i = nat b then Z else I2) [0..<nat n]"
    using assms by (intro pad2) simp_all
  finally show ?thesis
    using kron_rows [OF _ m] by (simp add: tensor_at_def)
qed

lemma kron_pad3:
  assumes "0 \<le> a" "a < b" "b < d" "d < n"
  shows "kron (py_rep I a @ [Mat Y] @ py_rep I (b - a - 1) @ [Mat Z] @ py_rep I (d - b - 1)
               @ [Mat W] @ py_rep I (n - d - 1))
         = Inr (Mat (tensor_at (nat n)
             (\<lambda>i. if i = nat a then Y else if i = nat b then Z else if i = nat d then W else I2)))"
proof -
  let ?xs = "py_rep I a @ [Mat Y] @ py_rep I (b - a - 1) @ [Mat Z] @ py_rep I (d - b - 1)
               @ [Mat W] @ py_rep I (n - d - 1)"
  have m: "\<forall>x \<in> set ?xs. is_Mat x"
    by (auto simp: py_rep_def I_Mat)
  have "map rows ?xs = replicate (nat a) I2 @ [Y] @ replicate (nat b - nat a - 1) I2 @ [Z]
                       @ replicate (nat d - nat b - 1) I2 @ [W]
                       @ replicate (nat n - nat d - 1) I2"
    using assms by (simp add: I_Mat nat_diff_distrib)
  also have "\<dots> = map (\<lambda>i. if i = nat a then Y else if i = nat b then Z
                              else if i = nat d then W else I2) [0..<nat n]"
    using assms by (intro pad3) simp_all
  finally show ?thesis
    using kron_rows [OF _ m] by (simp add: tensor_at_def)
qed

lemma add_gate_tensor:
  assumes "0 \<le> a" "a < n"
  shows "add_gate (Mat Y) a n = Inr (Mat (tensor_at (nat n) (\<lambda>i. if i = nat a then Y else I2)))"
  using kron_pad1 [OF assms, of Y] by (simp add: add_gate_def algebra_simps)

lemma control_gate_eq:
  assumes "1 \<le> n" "0 \<le> c" "c \<le> n - 1" "0 \<le> t" "t \<le> n - 1" "c \<noteq> t" "mat 2 2 G"
  shows "control_gate (Mat G) c t n
         = Inr (Mat (madd (tensor_at (nat n) (\<lambda>i. if i = nat c then P0 else I2))
                          (tensor_at (nat n)
                             (\<lambda>i. if i = nat c then P1 else if i = nat t then G else I2))))
         \<and> mat (2 ^ nat n) (2 ^ nat n)
               (madd (tensor_at (nat n) (\<lambda>i. if i = nat c then P0 else I2))
                     (tensor_at (nat n)
                        (\<lambda>i. if i = nat c then P1 else if i = nat t then G else I2)))"
proof -
  let ?f0 = "\<lambda>i. if i = nat c then P0 else I2"
  let ?f1 = "\<lambda>i. if i = nat c then P1 else if i = nat t then G else (I2 :: 'a list list)"
  have m0: "mat (2 ^ nat n) (2 ^ nat n) (tensor_at (nat n) ?f0)"
    by (rule mat_tensor_at) simp
  have m1: "mat (2 ^ nat n) (2 ^ nat n) (tensor_at (nat n) ?f1)"
    by (rule mat_tensor_at) (simp add: assms)
  have a: "add_gate (np_outer zero zero) c n = Inr (Mat (tensor_at (nat n) ?f0))"
    using assms by (simp add: outer_zero add_gate_tensor)
  have val: "\<not> (\<not> (0 \<le> c \<and> c \<le> n) \<or> \<not> (0 \<le> t \<and> t \<le> n))"
    using assms by simp
  have nct: "nat c \<noteq> nat t" using assms by simp
  have "control_gate (Mat G) c t n = Inr (Mat (madd (tensor_at (nat n) ?f0) (tensor_at (nat n) ?f1)))"
  proof (cases "c < t")
    case True
    have k: "kron (py_rep I c @ [np_outer one one] @ py_rep I (t - c - 1) @ [Mat G]
                @ py_rep I (n - t - 1)) = Inr (Mat (tensor_at (nat n) ?f1))"
      using assms True kron_pad2 [of c t n P1 G] by (simp add: outer_one)
    show ?thesis
      unfolding control_gate_def a k using assms(6) val True
      by (simp add: then_e_def np_add_mat_same [OF m0 m1])
  next
    case False
    then have tc: "t < c" using assms by simp
    have eq: "(\<lambda>i. if i = nat t then G else if i = nat c then P1 else I2) = ?f1"
      using nct by auto
    have k: "kron (py_rep I t @ [Mat G] @ py_rep I (c - t - 1) @ [np_outer one one]
                @ py_rep I (n - c - 1)) = Inr (Mat (tensor_at (nat n) ?f1))"
      using assms tc kron_pad2 [of t c n G P1] by (simp add: outer_one eq)
    show ?thesis
      unfolding control_gate_def a k using assms(6) val False
      by (simp add: then_e_def np_add_mat_same [OF m0 m1])
  qed
  then show ?thesis using mat_madd [OF m0 m1] by simp
qed

lemma nth_scal [simp]: "j < length v \<Longrightarrow> scal a v ! j = a * v ! j"
  by (simp add: scal_def)

lemma nth_krow:
  "j < length u * length v \<Longrightarrow>
   krow u v ! j = u ! (j div length v) * v ! (j mod length v)"
proof (induction u arbitrary: j)
  case Nil
  then show ?case by simp
next
  case (Cons a u)
  have pos: "0 < length v" using Cons.prems by (cases "length v") simp_all
  show ?case
  proof (cases "j < length v")
    case True
    then show ?thesis by (simp add: nth_append)
  next
    case False
    then have ge: "length v \<le> j" by simp
    have lt: "j - length v < length u * length v" using Cons.prems ge by simp
    have d: "j div length v = Suc ((j - length v) div length v)"
      using pos ge by (simp add: le_div_geq)
    have m: "j mod length v = (j - length v) mod length v"
      using ge by (simp add: le_mod_geq)
    show ?thesis
      using False Cons.IH [OF lt] by (simp add: nth_append d m)
  qed
qed

lemma nth_kron_mat:
  "i < length A * length B \<Longrightarrow>
   kron_mat A B ! i = krow (A ! (i div length B)) (B ! (i mod length B))"
proof (induction A arbitrary: i)
  case Nil
  then show ?case by simp
next
  case (Cons r A)
  have pos: "0 < length B" using Cons.prems by (cases "length B") simp_all
  show ?case
  proof (cases "i < length B")
    case True
    then show ?thesis by (simp add: nth_append)
  next
    case False
    then have ge: "length B \<le> i" by simp
    have lt: "i - length B < length A * length B" using Cons.prems ge by simp
    have d: "i div length B = Suc ((i - length B) div length B)"
      using pos ge by (simp add: le_div_geq)
    have m: "i mod length B = (i - length B) mod length B"
      using ge by (simp add: le_mod_geq)
    show ?thesis
      using False Cons.IH [OF lt] by (simp add: nth_append d m)
  qed
qed

lemma div_less_mult: "i < a * b \<Longrightarrow> i div b < (a::nat)"
  by (simp add: less_mult_imp_div_less)

lemma mod_less_mult: "i < a * b \<Longrightarrow> i mod b < (b::nat)"
  by (cases "b = 0") simp_all

lemma matD:
  assumes "mat r c A" "i < r"
  shows "length (A ! i) = c" "length A = r"
  using assms by (simp_all add: mat_def)

lemma entry_kron_mat:
  assumes "mat r1 c1 A" "mat r2 c2 B" "i < r1 * r2" "j < c1 * c2"
  shows "kron_mat A B ! i ! j
         = A ! (i div r2) ! (j div c2) * B ! (i mod r2) ! (j mod c2)"
proof -
  have i1: "i div r2 < r1" and i2: "i mod r2 < r2"
    using assms(3) by (rule div_less_mult, rule mod_less_mult)
  have la: "length (A ! (i div r2)) = c1" using assms(1) i1 by (rule matD)
  have lb: "length (B ! (i mod r2)) = c2" using assms(2) i2 by (rule matD)
  have "kron_mat A B ! i = krow (A ! (i div r2)) (B ! (i mod r2))"
    using assms nth_kron_mat [of i A B] by (simp add: mat_def)
  then show ?thesis
    using nth_krow [of j "A ! (i div r2)" "B ! (i mod r2)"] assms(4) by (simp add: la lb)
qed

lemma mat_eqI:
  assumes "mat r c A" "mat r c B"
    and "\<And>i j. i < r \<Longrightarrow> j < c \<Longrightarrow> A ! i ! j = B ! i ! j"
  shows "A = B"
proof (rule nth_equalityI)
  show "length A = length B" using assms by (simp add: mat_def)
next
  fix i assume "i < length A"
  then have i: "i < r" using assms(1) by (simp add: mat_def)
  show "A ! i = B ! i"
  proof (rule nth_equalityI)
    show "length (A ! i) = length (B ! i)"
      using matD(1) [OF assms(1) i] matD(1) [OF assms(2) i] by simp
  next
    fix j assume "j < length (A ! i)"
    then have "j < c" using matD(1) [OF assms(1) i] by simp
    then show "A ! i ! j = B ! i ! j" using i by (rule assms(3) [rotated])
  qed
qed

lemma entry_madd:
  assumes "mat r c A" "mat r c B" "i < r" "j < c"
  shows "madd A B ! i ! j = A ! i ! j + B ! i ! j"
  using assms matD(1) [OF assms(1,3)] matD(1) [OF assms(2,3)]
  by (simp add: madd_def mat_def)

lemma mat_ident [simp]: "mat n n (ident n)"
  by (auto simp: mat_def ident_def)

lemma entry_ident:
  "i < n \<Longrightarrow> j < n \<Longrightarrow> ident n ! i ! j = (if i = j then 1 else 0)"
  by (simp add: ident_def)

lemma kron_mat_madd_right:
  assumes "mat r1 c1 A" "mat r2 c2 B" "mat r2 c2 C"
  shows "kron_mat A (madd B C) = madd (kron_mat A B) (kron_mat A C)"
proof (rule mat_eqI)
  show "mat (r1 * r2) (c1 * c2) (kron_mat A (madd B C))"
    using assms by (intro mat_kron_mat mat_madd)
  show "mat (r1 * r2) (c1 * c2) (madd (kron_mat A B) (kron_mat A C))"
    using assms by (intro mat_kron_mat mat_madd)
next
  fix i j assume ij: "i < r1 * r2" "j < c1 * c2"
  have i2: "i mod r2 < r2" and j2: "j mod c2 < c2"
    using ij by (auto intro: mod_less_mult)
  have mb: "mat (r1 * r2) (c1 * c2) (kron_mat A B)"
    and mc: "mat (r1 * r2) (c1 * c2) (kron_mat A C)"
    using assms by (auto intro: mat_kron_mat)
  show "kron_mat A (madd B C) ! i ! j = madd (kron_mat A B) (kron_mat A C) ! i ! j"
    using entry_kron_mat [OF assms(1) mat_madd [OF assms(2,3)] ij]
      entry_kron_mat [OF assms(1,2) ij] entry_kron_mat [OF assms(1,3) ij]
      entry_madd [OF mb mc ij] entry_madd [OF assms(2,3) i2 j2]
    by (simp add: distrib_left)
qed

lemma kron_mat_madd_left:
  assumes "mat r1 c1 A" "mat r1 c1 B" "mat r2 c2 C"
  shows "kron_mat (madd A B) C = madd (kron_mat A C) (kron_mat B C)"
proof (rule mat_eqI)
  show "mat (r1 * r2) (c1 * c2) (kron_mat (madd A B) C)"
    using assms by (intro mat_kron_mat mat_madd)
  show "mat (r1 * r2) (c1 * c2) (madd (kron_mat A C) (kron_mat B C))"
    using assms by (intro mat_kron_mat mat_madd)
next
  fix i j assume ij: "i < r1 * r2" "j < c1 * c2"
  have i1: "i div r2 < r1" and j1: "j div c2 < c1"
    using ij by (auto intro: div_less_mult)
  have ma: "mat (r1 * r2) (c1 * c2) (kron_mat A C)"
    and mb: "mat (r1 * r2) (c1 * c2) (kron_mat B C)"
    using assms by (auto intro: mat_kron_mat)
  show "kron_mat (madd A B) C ! i ! j = madd (kron_mat A C) (kron_mat B C) ! i ! j"
    using entry_kron_mat [OF mat_madd [OF assms(1,2)] assms(3) ij]
      entry_kron_mat [OF assms(1,3) ij] entry_kron_mat [OF assms(2,3) ij]
      entry_madd [OF ma mb ij] entry_madd [OF assms(1,2) i1 j1]
    by (simp add: distrib_right)
qed

lemma kron_mat_ident: "kron_mat (ident a) (ident b) = ident (a * b)"
proof (rule mat_eqI)
  show "mat (a * b) (a * b) (kron_mat (ident a) (ident b))"
    by (intro mat_kron_mat mat_ident)
  show "mat (a * b) (a * b) (ident (a * b))" by simp
next
  fix i j assume ij: "i < a * b" "j < a * b"
  have i1: "i div b < a" and j1: "j div b < a" and i2: "i mod b < b" and j2: "j mod b < b"
    using ij by (auto intro: div_less_mult mod_less_mult)
  have "i = j \<longleftrightarrow> i div b = j div b \<and> i mod b = j mod b"
    by (metis div_mult_mod_eq)
  then show "kron_mat (ident a) (ident b) ! i ! j = ident (a * b) ! i ! j"
    using entry_kron_mat [OF mat_ident mat_ident ij] ij i1 j1 i2 j2
    by (auto simp: entry_ident)
qed

lemma I2_ident: "I2 = ident 2"
  by (simp add: I2_def ident_def eval_nat_numeral upt_rec)

lemma kronL_replicate_I2:
  "kronL (replicate k I2) = (ident (2 ^ k) :: 'a::comm_ring_1 list list)"
proof (induction k)
  case 0
  show ?case by (simp add: ident_def)
next
  case (Suc k)
  have "kronL (replicate (Suc k) I2)
        = kron_mat I2 (kronL (replicate k I2) :: 'a list list)"
    by (simp add: kronL_Cons)
  also have "\<dots> = kron_mat (ident 2) (ident (2 ^ k))"
    unfolding Suc by (simp only: I2_ident)
  also have "\<dots> = ident (2 * 2 ^ k)"
    by (rule kron_mat_ident)
  finally show ?case by simp
qed

lemma tensor_at_ident:
  assumes "\<And>i. i < n \<Longrightarrow> f i = I2"
  shows "tensor_at n f = ident (2 ^ n)"
proof -
  have "map f [0..<n] = replicate (n - 0) I2"
    by (rule map_const_upt) (simp add: assms)
  then show ?thesis by (simp add: tensor_at_def kronL_replicate_I2)
qed

lemma tensor_at_cong:
  assumes "\<And>i. i < n \<Longrightarrow> f i = g i"
  shows "tensor_at n f = tensor_at n g"
proof -
  have "map f [0..<n] = map g [0..<n]" by (rule map_cong) (simp_all add: assms)
  then show ?thesis unfolding tensor_at_def by (rule arg_cong)
qed

lemma tensor_at_split:
  assumes "c < n"
  shows "tensor_at n f
         = kron_mat (kron_mat (kronL (map f [0..<c])) (f c)) (kronL (map f [Suc c..<n]))"
proof -
  have "map f [0..<n] = (map f [0..<c] @ [f c]) @ map f [Suc c..<n]"
    using upt_split' [of 0 c n] assms by simp
  then show ?thesis
    unfolding tensor_at_def by (simp only: kronL_append kronL_single)
qed

lemma mat_kronL_map:
  assumes "\<And>i. i \<in> set is \<Longrightarrow> mat 2 2 (f i)"
  shows "mat (2 ^ length is) (2 ^ length is) (kronL (map f is))"
  using mat_kronL [of "map f is"] assms by simp

lemma tensor_at_add:
  assumes c: "c < n"
    and m: "\<And>i. i < n \<Longrightarrow> mat 2 2 (f i) \<and> mat 2 2 (g i)"
    and eq: "\<And>i. i < n \<Longrightarrow> i \<noteq> c \<Longrightarrow> g i = f i \<and> h i = f i"
    and hc: "h c = madd (f c) (g c)"
  shows "madd (tensor_at n f) (tensor_at n g) = tensor_at n h"
proof -
  let ?K = "kronL (map f [0..<c])" and ?L = "kronL (map f [Suc c..<n])"
  have g1: "map g [0..<c] = map f [0..<c]" and h1: "map h [0..<c] = map f [0..<c]"
    using c eq by (auto intro!: map_cong)
  have g2: "map g [Suc c..<n] = map f [Suc c..<n]"
    and h2: "map h [Suc c..<n] = map f [Suc c..<n]"
    using eq by (auto intro!: map_cong)
  have mK: "mat (2 ^ c) (2 ^ c) ?K"
    using mat_kronL_map [of "[0..<c]" f] m c by simp
  have mL: "mat (2 ^ (n - Suc c)) (2 ^ (n - Suc c)) ?L"
    using mat_kronL_map [of "[Suc c..<n]" f] m by simp
  have mf: "mat 2 2 (f c)" and mg: "mat 2 2 (g c)" using m c by simp_all
  have "madd (tensor_at n f) (tensor_at n g)
        = madd (kron_mat (kron_mat ?K (f c)) ?L) (kron_mat (kron_mat ?K (g c)) ?L)"
    by (simp add: tensor_at_split [OF c] g1 g2)
  also have "\<dots> = kron_mat (madd (kron_mat ?K (f c)) (kron_mat ?K (g c))) ?L"
    by (rule kron_mat_madd_left [symmetric, OF mat_kron_mat mat_kron_mat mL])
       (rule mK mf mg)+
  also have "madd (kron_mat ?K (f c)) (kron_mat ?K (g c)) = kron_mat ?K (madd (f c) (g c))"
    by (rule kron_mat_madd_right [symmetric, OF mK mf mg])
  also have "kron_mat (kron_mat ?K (madd (f c) (g c))) ?L = tensor_at n h"
    by (simp add: tensor_at_split [OF c] h1 h2 hc)
  finally show ?thesis .
qed

lemma P0_plus_P1: "madd P0 P1 = I2"
  by (simp add: madd_def P0_def P1_def I2_def)

lemma sandwich_add:
  assumes "mat rk ck K" "mat r c A" "mat r c B" "mat rl cl L"
  shows "madd (kron_mat (kron_mat K A) L) (kron_mat (kron_mat K B) L)
         = kron_mat (kron_mat K (madd A B)) L"
proof -
  have "madd (kron_mat (kron_mat K A) L) (kron_mat (kron_mat K B) L)
        = kron_mat (madd (kron_mat K A) (kron_mat K B)) L"
    by (rule kron_mat_madd_left [symmetric, OF mat_kron_mat mat_kron_mat assms(4)])
       (rule assms)+
  also have "madd (kron_mat K A) (kron_mat K B) = kron_mat K (madd A B)"
    by (rule kron_mat_madd_right [symmetric, OF assms(1,2,3)])
  finally show ?thesis .
qed

lemma control_gate_identity_eq:
  assumes "1 \<le> n" "0 \<le> c" "c \<le> n - 1" "0 \<le> t" "t \<le> n - 1" "c \<noteq> t"
  shows "control_gate I c t n = Inr (Mat (ident (2 ^ nat n)))"
proof -
  let ?f0 = "\<lambda>i. if i = nat c then P0 else (I2 :: 'a list list)"
  let ?f1 = "\<lambda>i. if i = nat c then P1 else if i = nat t then I2 else (I2 :: 'a list list)"
  have cn: "nat c < nat n" using assms by simp
  have "madd (tensor_at (nat n) ?f0) (tensor_at (nat n) ?f1) = tensor_at (nat n) (\<lambda>i. I2)"
    by (rule tensor_at_add [OF cn]) (simp_all add: P0_plus_P1)
  also have "\<dots> = ident (2 ^ nat n)"
    by (rule tensor_at_ident) simp
  finally have s: "madd (tensor_at (nat n) ?f0) (tensor_at (nat n) ?f1) = ident (2 ^ nat n)" .
  note e = control_gate_eq [OF assms mat_I2, THEN conjunct1]
  show ?thesis unfolding I_Mat e s by (rule refl)
qed

lemma kron_nonempty: "xs \<noteq> [] \<Longrightarrow> \<exists>y. kron xs = Inr y"
  by (cases xs) simp_all

lemma np_add_error:
  "np_add a b = Inl e \<Longrightarrow> e = ValueError ''operands could not be broadcast together''"
  by (cases a; cases b)
     (auto simp: then_e_def np_add_mat_def split: option.splits sum.splits)

lemma add_gate_defined: "\<exists>y. add_gate g a n = Inr y"
  unfolding add_gate_def Let_def by (rule kron_nonempty) simp

lemma then_e_Inr [simp]: "then_e (Inr x) f = f x"
  by (simp add: then_e_def)

lemma then_e_Inl [simp]: "then_e (Inl e) f = Inl e"
  by (simp add: then_e_def)

lemma sum_of_two_error:
  assumes "xs \<noteq> []" "ys \<noteq> []"
    and "then_e (kron xs) (\<lambda>a. then_e (kron ys) (\<lambda>b. np_add a b)) = Inl e"
  shows "e = ValueError ''operands could not be broadcast together''"
proof -
  obtain a b where "kron xs = Inr a" "kron ys = Inr b"
    using kron_nonempty assms(1,2) by blast
  then show ?thesis using assms(3) by (simp add: np_add_error)
qed

lemma control_gate_valid_error:
  assumes "c \<noteq> t" "0 \<le> c" "c \<le> n" "0 \<le> t" "t \<le> n"
    and "control_gate gate c t n = Inl e"
  shows "e = ValueError ''operands could not be broadcast together''"
proof (cases "c < t")
  case True
  with assms have "then_e (kron (py_rep I c @ [np_outer zero zero] @ py_rep I (n - (c + 1))))
      (\<lambda>a. then_e (kron (py_rep I c @ [np_outer one one] @ py_rep I (t - c - 1) @ [gate]
                         @ py_rep I (n - t - 1))) (\<lambda>b. np_add a b)) = Inl e"
    by (simp add: control_gate_def add_gate_def)
  then show ?thesis by (rule sum_of_two_error [rotated 2]) simp_all
next
  case False
  with assms have "then_e (kron (py_rep I c @ [np_outer zero zero] @ py_rep I (n - (c + 1))))
      (\<lambda>a. then_e (kron (py_rep I t @ [gate] @ py_rep I (c - t - 1) @ [np_outer one one]
                         @ py_rep I (n - c - 1))) (\<lambda>b. np_add a b)) = Inl e"
    by (simp add: control_gate_def add_gate_def)
  then show ?thesis by (rule sum_of_two_error [rotated 2]) simp_all
qed

lemma cnot_nonadj_valid_error:
  assumes "c \<noteq> t" "0 \<le> c" "c \<le> n" "0 \<le> t" "t \<le> n"
    and "(cnot_nonadj c t n :: error + 'a::comm_ring_1 ndarray) = Inl e"
  shows "e = ValueError ''operands could not be broadcast together''"
proof (cases "c < t")
  case True
  with assms have "then_e (kron (py_rep I c @ [np_outer zero zero] @ py_rep I (n - c - 1)))
      (\<lambda>a. then_e (kron (py_rep I c @ [np_outer one one] @ py_rep I (t - c - 1)
                         @ [X :: 'a ndarray]
                         @ py_rep I (n - t - 1))) (\<lambda>b. np_add a b)) = Inl e"
    by (simp add: cnot_nonadj_def)
  then show ?thesis by (rule sum_of_two_error [rotated 2]) simp_all
next
  case False
  with assms have "then_e (kron (py_rep I c @ [np_outer zero zero] @ py_rep I (n - c - 1)))
      (\<lambda>a. then_e (kron (py_rep I t @ [X :: 'a ndarray] @ py_rep I (c - t - 1)
                         @ [np_outer one one]
                         @ py_rep I (n - c - 1))) (\<lambda>b. np_add a b)) = Inl e"
    by (simp add: cnot_nonadj_def)
  then show ?thesis by (rule sum_of_two_error [rotated 2]) simp_all
qed

lemma cnot_nonadj_control_gate:
  "(cnot_nonadj c t n :: error + 'a::comm_ring_1 ndarray) = control_gate X c t n"
  by (simp add: cnot_nonadj_def control_gate_def add_gate_def algebra_simps)

text \<open>
  C5, as amended. \<open>control_gate\<close> and \<open>cnot_nonadj\<close> raise a ValueError whenever
  control equals target or an index lies outside the inclusive range from 0 to
  \<open>num_qubits\<close>, and they raise no error, returning a matrix, when control and target
  are distinct and both lie between 0 and \<open>num_qubits - 1\<close> (for a 2 x 2 gate). In
  particular \<open>control_gate X c c n\<close> fails for every \<open>c\<close> and \<open>n\<close>. A call that
  fails returns the error and no array.
\<close>

theorem control_gate_value_error:
  "((c = t \<or> \<not> (0 \<le> c \<and> c \<le> n) \<or> \<not> (0 \<le> t \<and> t \<le> n))
      \<longrightarrow> (\<exists>msg. control_gate (gate :: 'a::comm_ring_1 ndarray) c t n = Inl (ValueError msg))
          \<and> (\<exists>msg. (cnot_nonadj c t n :: error + 'a ndarray) = Inl (ValueError msg)))
   \<and> (c \<noteq> t \<and> 0 \<le> c \<and> c \<le> n - 1 \<and> 0 \<le> t \<and> t \<le> n - 1 \<and> mat 2 2 G
      \<longrightarrow> (\<exists>U. control_gate (Mat G :: 'a ndarray) c t n = Inr (Mat U))
          \<and> (\<exists>U. (cnot_nonadj c t n :: error + 'a ndarray) = Inr (Mat U)))
   \<and> control_gate (X :: 'a ndarray) c c n
       = Inl (ValueError ''Control and Target qubits must be different.'')"
proof (intro conjI impI)
  assume "c = t \<or> \<not> (0 \<le> c \<and> c \<le> n) \<or> \<not> (0 \<le> t \<and> t \<le> n)"
  then show "\<exists>msg. control_gate gate c t n = Inl (ValueError msg)"
    by (auto simp: control_gate_def)
next
  assume "c = t \<or> \<not> (0 \<le> c \<and> c \<le> n) \<or> \<not> (0 \<le> t \<and> t \<le> n)"
  then show "\<exists>msg. (cnot_nonadj c t n :: error + 'a ndarray) = Inl (ValueError msg)"
    by (auto simp: cnot_nonadj_def)
next
  assume h: "c \<noteq> t \<and> 0 \<le> c \<and> c \<le> n - 1 \<and> 0 \<le> t \<and> t \<le> n - 1 \<and> mat 2 2 G"
  then have n1: "1 \<le> n" by simp
  show "\<exists>U. control_gate (Mat G) c t n = Inr (Mat U)"
    using control_gate_eq [of n c t G] n1 h by blast
next
  assume h: "c \<noteq> t \<and> 0 \<le> c \<and> c \<le> n - 1 \<and> 0 \<le> t \<and> t \<le> n - 1 \<and> mat 2 2 G"
  then have n1: "1 \<le> n" by simp
  have "\<exists>U. control_gate (Mat Xm :: 'a ndarray) c t n = Inr (Mat U)"
    using control_gate_eq [of n c t "Xm :: 'a list list"] n1 h by auto
  then show "\<exists>U. (cnot_nonadj c t n :: error + 'a ndarray) = Inr (Mat U)"
    by (simp add: cnot_nonadj_control_gate X_Mat)
next
  show "control_gate (X :: 'a ndarray) c c n
        = Inl (ValueError ''Control and Target qubits must be different.'')"
    by (simp add: control_gate_def)
qed

theorem control_gate_value_error_witness:
  "control_gate (X :: int ndarray) 3 1 2 = Inl (ValueError ''Error'')
   \<and> (cnot_nonadj 3 1 2 :: error + int ndarray) = Inl (ValueError ''Error'')
   \<and> control_gate (Mat [[5, 6], [7, 8 :: int]]) 0 1 2
       = Inr (Mat [[1, 0, 0, 0], [0, 1, 0, 0], [0, 0, 5, 6], [0, 0, 7, 8]])
   \<and> (cnot_nonadj 0 1 2 :: error + int ndarray)
       = Inr (Mat [[1, 0, 0, 0], [0, 1, 0, 0], [0, 0, 0, 1], [0, 0, 1, 0]])"
proof -
  have a: "(\<exists>msg. control_gate (X :: int ndarray) 3 1 2 = Inl (ValueError msg))
           \<and> (\<exists>msg. (cnot_nonadj 3 1 2 :: error + int ndarray) = Inl (ValueError msg))"
    using control_gate_value_error [of 3 1 2 "X :: int ndarray"] by simp
  have b: "(\<exists>U. control_gate (Mat [[5, 6], [7, 8 :: int]]) 0 1 2 = Inr (Mat U))
           \<and> (\<exists>U. (cnot_nonadj 0 1 2 :: error + int ndarray) = Inr (Mat U))"
    using control_gate_value_error [of 0 1 2 _ "[[5, 6], [7, 8 :: int]]"]
    by (simp add: mat_def)
  have c: "control_gate (X :: int ndarray) 3 1 2 = Inl (ValueError ''Error'')"
    "(cnot_nonadj 3 1 2 :: error + int ndarray) = Inl (ValueError ''Error'')"
    using a by (simp_all add: control_gate_def cnot_nonadj_def)
  have d: "control_gate (Mat [[5, 6], [7, 8 :: int]]) 0 1 2
           = Inr (Mat [[1, 0, 0, 0], [0, 1, 0, 0], [0, 0, 5, 6], [0, 0, 7, 8]])"
    "(cnot_nonadj 0 1 2 :: error + int ndarray)
     = Inr (Mat [[1, 0, 0, 0], [0, 1, 0, 0], [0, 0, 0, 1], [0, 0, 1, 0]])"
    using b by (simp_all add: control_gate_def cnot_nonadj_def add_gate_def gate_defs)
  from c d show ?thesis by blast
qed

text \<open>
  The converse fails for the inclusive range: with target equal to \<open>num_qubits\<close> the
  validation passes (the indices are distinct and within the inclusive range), the two
  terms of the sum have different sizes, and the sum raises numpy's broadcasting
  ValueError.
\<close>

theorem control_gate_value_error_counterexample:
  "control_gate (X :: int ndarray) 0 1 1
     = Inl (ValueError ''operands could not be broadcast together'')
   \<and> (cnot_nonadj 0 2 2 :: error + int ndarray)
     = Inl (ValueError ''operands could not be broadcast together'')
   \<and> (0::int) \<noteq> 1 \<and> (0::int) \<le> 0 \<and> (0::int) \<le> 1 \<and> (1::int) \<le> 1
   \<and> (0::int) \<noteq> 2 \<and> (0::int) \<le> 2 \<and> (2::int) \<le> 2"
  by (simp add: control_gate_def cnot_nonadj_def add_gate_def gate_defs)

lemmas tensor_eval =
  tensor_at_def kronL_def kron_mat_def krow_def scal_def madd_def I2_def P0_def P1_def
  Xm_def ident_def mat_def upt_rec

text \<open>
  C8. For \<open>n \<ge> 1\<close> and distinct control and target between 0 and \<open>n - 1\<close>,
  \<open>control_gate\<close> applied to the 2 x 2 identity \<open>I\<close> returns the
  \<open>2^n x 2^n\<close> identity matrix.
\<close>

theorem control_gate_identity:
  assumes "1 \<le> n" "0 \<le> c" "c \<le> n - 1" "0 \<le> t" "t \<le> n - 1" "c \<noteq> t"
  shows "control_gate I c t n = Inr (Mat (ident (2 ^ nat n)))"
  using assms by (rule control_gate_identity_eq)

theorem control_gate_identity_witness:
  "control_gate I 2 0 3 = Inr (Mat (perm_mat [0, 1, 2, 3, 4, 5, 6, 7] :: int list list))
   \<and> (perm_mat [0, 1, 2, 3, 4, 5, 6, 7] :: int list list) = ident 8"
  using control_gate_identity [of 3 2 0, where ?'a = int]
  by (simp add: ident_def upt_rec perm_mat_def eval_nat_numeral)

lemma control_gate_extra_qubit_eq:
  assumes "1 \<le> n" "0 \<le> t" "t \<le> n - 1" "mat 2 2 G"
  shows "control_gate (Mat G) n t n
         = Inr (Mat (madd (tensor_at (nat n + 1) (\<lambda>i. if i = nat n then P0 else I2))
                          (tensor_at (nat n + 1)
                             (\<lambda>i. if i = nat t then G else if i = nat n then P1 else I2))))"
    and "mat (2 ^ (nat n + 1)) (2 ^ (nat n + 1))
           (madd (tensor_at (nat n + 1) (\<lambda>i. if i = nat n then P0 else I2))
                 (tensor_at (nat n + 1)
                    (\<lambda>i. if i = nat t then G else if i = nat n then P1 else I2)))"
proof -
  let ?f0 = "\<lambda>i. if i = nat n then P0 else (I2 :: 'a list list)"
  let ?f1 = "\<lambda>i. if i = nat t then G else if i = nat n then P1 else (I2 :: 'a list list)"
  have n1: "nat (n + 1) = nat n + 1" using assms by simp
  have m0: "mat (2 ^ (nat n + 1)) (2 ^ (nat n + 1)) (tensor_at (nat n + 1) ?f0)"
    by (rule mat_tensor_at) simp
  have m1: "mat (2 ^ (nat n + 1)) (2 ^ (nat n + 1)) (tensor_at (nat n + 1) ?f1)"
    by (rule mat_tensor_at) (simp add: assms)
  have l0: "py_rep I n @ [np_outer zero zero] @ py_rep I (n - (n + 1))
            = py_rep I n @ [Mat P0] @ py_rep I (n + 1 - n - 1)"
    by (simp add: outer_zero py_rep_def)
  have a: "add_gate (np_outer zero zero) n n = Inr (Mat (tensor_at (nat n + 1) ?f0))"
    unfolding add_gate_def Let_def l0
    using kron_pad1 [of n "n + 1" P0] assms by (simp add: n1)
  have l1: "py_rep I t @ [Mat G] @ py_rep I (n - t - 1) @ [np_outer one one]
              @ py_rep I (n - n - 1)
            = py_rep I t @ [Mat G] @ py_rep I (n - t - 1) @ [Mat P1]
              @ py_rep I (n + 1 - n - 1)"
    by (simp add: outer_one py_rep_def)
  have k: "kron (py_rep I t @ [Mat G] @ py_rep I (n - t - 1) @ [np_outer one one]
              @ py_rep I (n - n - 1)) = Inr (Mat (tensor_at (nat n + 1) ?f1))"
    unfolding l1 using kron_pad2 [of t n "n + 1" G P1] assms by (simp add: n1)
  have val: "n \<noteq> t" "\<not> (\<not> (0 \<le> n \<and> n \<le> n) \<or> \<not> (0 \<le> t \<and> t \<le> n))" "\<not> n < t"
    using assms by simp_all
  show "control_gate (Mat G) n t n
        = Inr (Mat (madd (tensor_at (nat n + 1) ?f0) (tensor_at (nat n + 1) ?f1)))"
    unfolding control_gate_def a k then_e_Inr np_add_Mat [OF m0 m1] using val
    by simp
  show "mat (2 ^ (nat n + 1)) (2 ^ (nat n + 1))
          (madd (tensor_at (nat n + 1) ?f0) (tensor_at (nat n + 1) ?f1))"
    by (rule mat_madd [OF m0 m1])
qed

lemma mat_unique: "mat r c A \<Longrightarrow> mat r' c' A \<Longrightarrow> r = r'"
  by (simp add: mat_def)

text \<open>
  C10. The inclusive bound check lets the control index \<open>num_qubits\<close> through: for
  \<open>n \<ge> 1\<close>, a target between 0 and \<open>n - 1\<close> and a 2 x 2 gate,
  \<open>control_gate G n t n\<close> raises no error and returns a matrix of dimension
  \<open>2^(n+1) x 2^(n+1)\<close> (a controlled gate on \<open>n + 1\<close> positions, the control
  at the extra position \<open>n\<close>), which is not a \<open>2^n x 2^n\<close> matrix.
\<close>

theorem control_gate_index_num_qubits:
  assumes "1 \<le> n" "0 \<le> t" "t \<le> n - 1" "mat 2 2 G"
  shows "\<exists>M. control_gate (Mat G) n t n = Inr (Mat M)
             \<and> M = madd (tensor_at (nat n + 1) (\<lambda>i. if i = nat n then P0 else I2))
                        (tensor_at (nat n + 1)
                           (\<lambda>i. if i = nat t then G else if i = nat n then P1 else I2))
             \<and> mat (2 ^ (nat n + 1)) (2 ^ (nat n + 1)) M
             \<and> \<not> mat (2 ^ nat n) (2 ^ nat n) M"
proof -
  let ?M = "madd (tensor_at (nat n + 1) (\<lambda>i. if i = nat n then P0 else I2))
                 (tensor_at (nat n + 1)
                    (\<lambda>i. if i = nat t then G else if i = nat n then P1 else I2))"
  have m: "mat (2 ^ (nat n + 1)) (2 ^ (nat n + 1)) ?M"
    by (rule control_gate_extra_qubit_eq(2) [OF assms])
  have "\<not> mat (2 ^ nat n) (2 ^ nat n) ?M"
  proof
    assume "mat (2 ^ nat n) (2 ^ nat n) ?M"
    then have "(2::nat) ^ nat n = 2 ^ (nat n + 1)" using m by (rule mat_unique)
    then show False by simp
  qed
  then show ?thesis
    using control_gate_extra_qubit_eq(1) [OF assms] m by blast
qed

theorem control_gate_index_num_qubits_witness:
  "control_gate (Mat [[0, 1], [1, 0 :: int]]) 1 0 1
   = Inr (Mat [[1, 0, 0, 0], [0, 0, 0, 1], [0, 0, 1, 0], [0, 1, 0, 0]])"
  using control_gate_index_num_qubits [of 1 0 "[[0, 1], [1, 0 :: int]]"]
  by (auto simp: tensor_eval)

lemma gate2_I [simp]: "gate2 I"
  by (simp add: gate2_def I_Mat)

lemma gate2_X [simp]: "gate2 X"
  by (simp add: gate2_def X_Mat)

lemma gate2_outer_zero [simp]: "gate2 (np_outer zero zero)"
  by (simp add: gate2_def outer_zero)

lemma gate2_outer_one [simp]: "gate2 (np_outer one one)"
  by (simp add: gate2_def outer_one)

lemma gate2_py_rep [simp]: "gate2 x \<Longrightarrow> y \<in> set (py_rep x k) \<Longrightarrow> gate2 y"
  by (simp add: py_rep_def split: if_splits)

lemma kron_gate2:
  assumes "xs \<noteq> []" "\<forall>x \<in> set xs. gate2 x"
  shows "kron xs = Inr (Mat (kronL (map rows xs)))"
    and "mat (2 ^ length xs) (2 ^ length xs) (kronL (map rows xs))"
proof -
  show "kron xs = Inr (Mat (kronL (map rows xs)))"
    using assms by (intro kron_rows) (auto simp: gate2_def)
  show "mat (2 ^ length xs) (2 ^ length xs) (kronL (map rows xs))"
    using mat_kronL [of "map rows xs"] assms(2) by (auto simp: gate2_def)
qed

lemma sum4_defined:
  assumes "xs1 \<noteq> []"
    and "\<forall>x \<in> set xs1. gate2 x" "\<forall>x \<in> set xs2. gate2 x"
      "\<forall>x \<in> set xs3. gate2 x" "\<forall>x \<in> set xs4. gate2 x"
    and "length xs2 = length xs1" "length xs3 = length xs1" "length xs4 = length xs1"
  shows "\<exists>M. sum4 (kron xs1) (kron xs2) (kron xs3) (kron xs4) = Inr (Mat M)
             \<and> mat (2 ^ length xs1) (2 ^ length xs1) M"
proof -
  let ?d = "2 ^ length xs1 :: nat"
  have ne: "xs2 \<noteq> []" "xs3 \<noteq> []" "xs4 \<noteq> []"
    using assms(1,6,7,8) by auto
  note k1 = kron_gate2 [OF assms(1,2)]
  note k2 = kron_gate2 [OF ne(1) assms(3), unfolded assms(6)]
  note k3 = kron_gate2 [OF ne(2) assms(4), unfolded assms(7)]
  note k4 = kron_gate2 [OF ne(3) assms(5), unfolded assms(8)]
  let ?A = "kronL (map rows xs1)" and ?B = "kronL (map rows xs2)"
  let ?C = "kronL (map rows xs3)" and ?D = "kronL (map rows xs4)"
  have m12: "mat ?d ?d (madd ?A ?B)" by (rule mat_madd [OF k1(2) k2(2)])
  have m123: "mat ?d ?d (madd (madd ?A ?B) ?C)" by (rule mat_madd [OF m12 k3(2)])
  have m: "mat ?d ?d (madd (madd (madd ?A ?B) ?C) ?D)" by (rule mat_madd [OF m123 k4(2)])
  have "sum4 (kron xs1) (kron xs2) (kron xs3) (kron xs4)
        = Inr (Mat (madd (madd (madd ?A ?B) ?C) ?D))"
    unfolding sum4_def k1(1) k2(1) k3(1) k4(1) then_e_Inr
      np_add_Mat [OF k1(2) k2(2)] np_add_Mat [OF m12 k3(2)] np_add_Mat [OF m123 k4(2)]
    by (rule refl)
  then show ?thesis using m by blast
qed

lemma sum4_defined_ex:
  assumes "xs1 \<noteq> []"
    and "\<forall>x \<in> set xs1. gate2 x" "\<forall>x \<in> set xs2. gate2 x"
      "\<forall>x \<in> set xs3. gate2 x" "\<forall>x \<in> set xs4. gate2 x"
    and "length xs2 = length xs1" "length xs3 = length xs1" "length xs4 = length xs1"
  shows "\<exists>M. sum4 (kron xs1) (kron xs2) (kron xs3) (kron xs4) = Inr (Mat M)"
  using sum4_defined [OF assms] by blast

text \<open>
  C6. Every call of \<open>TOFFOLI\<close> that passes its validation (target distinct from both
  controls, the three indices between 0 and \<open>num_qubits - 1\<close>) takes exactly one of
  the three ordering branches (with \<open>c1\<close>, \<open>c2\<close> the controls sorted ascending), so
  the branch that defines no operator is never taken, and the call returns a matrix.
\<close>

theorem TOFFOLI_defined:
  assumes "control1 \<noteq> target" "control2 \<noteq> target"
    and "0 \<le> control1" "control1 \<le> n - 1" "0 \<le> target" "target \<le> n - 1"
    and "0 \<le> control2" "control2 \<le> n - 1"
  shows "(\<exists>M. (TOFFOLI control1 control2 target n :: error + 'a::comm_ring_1 ndarray)
               = Inr (Mat M))
         \<and> (TOFFOLI control1 control2 target n :: error + 'a ndarray) \<noteq> Inl UnboundLocalError
         \<and> (let c1 = min control1 control2; c2 = max control1 control2 in
              (c2 < target \<and> \<not> (c1 < target \<and> target < c2) \<and> \<not> target < c1)
              \<or> (\<not> c2 < target \<and> (c1 < target \<and> target < c2) \<and> \<not> target < c1)
              \<or> (\<not> c2 < target \<and> \<not> (c1 < target \<and> target < c2) \<and> target < c1))"
proof -
  let ?c1 = "min control1 control2" and ?c2 = "max control1 control2"
  have v1: "(control1 = target \<or> control2 = target) \<equiv> False"
    using assms by simp
  have v2: "(\<not> (0 \<le> control1 \<and> control1 \<le> n - 1) \<or> \<not> (0 \<le> target \<and> target \<le> n - 1)
             \<or> \<not> (0 \<le> control2 \<and> control2 \<le> n - 1)) \<equiv> False"
    using assms by simp
  have tri: "?c2 < target \<or> (?c1 < target \<and> target < ?c2) \<or> target < ?c1"
    using assms(1,2) by linarith
  have ord: "?c1 \<le> ?c2" by simp
  consider (after) "?c2 < target"
    | (between) "\<not> ?c2 < target" "?c1 < target" "target < ?c2"
    | (before) "\<not> ?c2 < target" "\<not> (?c1 < target \<and> target < ?c2)" "target < ?c1"
    using tri by blast
  then have d: "\<exists>M. (TOFFOLI control1 control2 target n :: error + 'a ndarray) = Inr (Mat M)"
  proof cases
    case after
    note b = Eq_TrueI [OF after]
    show ?thesis
      unfolding TOFFOLI_def Let_def v1 v2 b if_False if_True
      by (rule sum4_defined_ex) (auto elim: gate2_py_rep [rotated])
  next
    case between
    note b = Eq_FalseI [OF between(1)] Eq_TrueI [OF conjI [OF between(2,3)]]
    show ?thesis
      unfolding TOFFOLI_def Let_def v1 v2 b if_False if_True
      by (rule sum4_defined_ex) (auto elim: gate2_py_rep [rotated])
  next
    case before
    note b = Eq_FalseI [OF before(1)] Eq_FalseI [OF before(2)] Eq_TrueI [OF before(3)]
    show ?thesis
      unfolding TOFFOLI_def Let_def v1 v2 b if_False if_True
      by (rule sum4_defined_ex) (auto elim: gate2_py_rep [rotated])
  qed
  moreover have "(TOFFOLI control1 control2 target n :: error + 'a ndarray)
                 \<noteq> Inl UnboundLocalError"
    using d by auto
  moreover have "(?c2 < target \<and> \<not> (?c1 < target \<and> target < ?c2) \<and> \<not> target < ?c1)
      \<or> (\<not> ?c2 < target \<and> (?c1 < target \<and> target < ?c2) \<and> \<not> target < ?c1)
      \<or> (\<not> ?c2 < target \<and> \<not> (?c1 < target \<and> target < ?c2) \<and> target < ?c1)"
    using tri ord by linarith
  ultimately show ?thesis by (simp add: Let_def)
qed

theorem TOFFOLI_defined_witness:
  "(TOFFOLI 2 0 1 3 :: error + int ndarray) = Inr (Mat (perm_mat [0, 1, 2, 3, 4, 7, 6, 5]))
   \<and> (TOFFOLI 2 0 1 3 :: error + int ndarray) \<noteq> Inl UnboundLocalError"
  using TOFFOLI_defined [of 2 1 0 3, where ?'a = int]
  by (simp add: TOFFOLI_def sum4_def gate_defs perm_mat_def eval_nat_numeral)

lemma mat_cnotm [simp]: "mat 4 4 cnotm"
  by (simp add: mat_def cnotm_def)

lemma cnot_Mat: "cnot = Mat cnotm"
  by (simp add: cnot_def cnotm_def)

lemma cnot_decomposition: "madd (kron_mat P0 I2) (kron_mat P1 Xm) = cnotm"
  by (simp add: madd_def P0_def P1_def I2_def Xm_def cnotm_def)

lemma mat_kronL_replicate_I2: "mat (2 ^ k) (2 ^ k) (kronL (replicate k I2))"
  using mat_kronL [of "replicate k I2"] by simp

lemma cnot_adj_eq_cnot_nonadj:
  assumes "0 \<le> i" "i + 1 \<le> n - 1"
  shows "(cnot_adj i (i + 1) n :: error + 'a::comm_ring_1 ndarray) = cnot_nonadj i (i + 1) n"
    and "(cnot_adj i (i + 1) n :: error + 'a ndarray)
         = Inr (Mat (kron_mat (kron_mat (kronL (replicate (nat i) I2)) cnotm)
                              (kronL (replicate (nat (n - i - 2)) I2))))"
proof -
  let ?K = "kronL (replicate (nat i) I2) :: 'a list list"
  let ?L = "kronL (replicate (nat (n - i - 2)) I2) :: 'a list list"
  have mK: "mat (2 ^ nat i) (2 ^ nat i) ?K" and mL: "mat (2 ^ nat (n - i - 2)) (2 ^ nat (n - i - 2)) ?L"
    by (rule mat_kronL_replicate_I2)+
  have mA: "mat (2 * 2) (2 * 2) (kron_mat P0 (I2 :: 'a list list))"
    and mB: "mat (2 * 2) (2 * 2) (kron_mat P1 (Xm :: 'a list list))"
    by (rule mat_kron_mat; simp)+
  let ?adj = "py_rep I i @ [cnot] @ py_rep I (n - (i + 1 + 1)) :: 'a ndarray list"
  have adj: "(cnot_adj i (i + 1) n :: error + 'a ndarray)
             = Inr (Mat (kron_mat (kron_mat ?K cnotm) ?L))"
  proof -
    have "kron ?adj = Inr (Mat (kronL (map rows ?adj)))"
      by (rule kron_rows) (auto simp: py_rep_def I_Mat cnot_Mat)
    moreover have "map rows ?adj
        = (replicate (nat i) I2 @ [cnotm]) @ replicate (nat (n - i - 2)) I2"
      by (simp add: I_Mat cnot_Mat algebra_simps)
    ultimately show ?thesis
      by (simp only: cnot_adj_def Let_def kronL_append kronL_single if_False
          not_not refl simp_thms)
  qed
  let ?t0 = "py_rep I i @ [np_outer zero zero] @ py_rep I (n - i - 1) :: 'a ndarray list"
  let ?t1 = "py_rep I i @ [np_outer one one] @ py_rep I (i + 1 - i - 1) @ [X]
             @ py_rep I (n - (i + 1) - 1) :: 'a ndarray list"
  have rep: "nat (n - i - 1) = Suc (nat (n - i - 2))" using assms by simp
  have t0: "kron ?t0 = Inr (Mat (kron_mat (kron_mat ?K (kron_mat P0 I2)) ?L))"
  proof -
    have "kron ?t0 = Inr (Mat (kronL (map rows ?t0)))"
      by (rule kron_rows) (auto simp: py_rep_def I_Mat outer_zero)
    moreover have "map rows ?t0
        = (replicate (nat i) I2 @ [P0, I2]) @ replicate (nat (n - i - 2)) I2"
      by (simp add: I_Mat outer_zero rep)
    moreover have "kronL [P0, I2 :: 'a list list] = kron_mat P0 I2"
      by (simp add: kronL_Cons)
    ultimately show ?thesis
      by (simp only: kronL_append)
  qed
  have t1: "kron ?t1 = Inr (Mat (kron_mat (kron_mat ?K (kron_mat P1 Xm)) ?L))"
  proof -
    have "kron ?t1 = Inr (Mat (kronL (map rows ?t1)))"
      by (rule kron_rows) (auto simp: py_rep_def I_Mat outer_one X_Mat)
    moreover have "map rows ?t1
        = (replicate (nat i) I2 @ [P1, Xm]) @ replicate (nat (n - i - 2)) I2"
      by (simp add: I_Mat outer_one X_Mat algebra_simps)
    moreover have "kronL [P1, Xm :: 'a list list] = kron_mat P1 Xm"
      by (simp add: kronL_Cons)
    ultimately show ?thesis
      by (simp only: kronL_append)
  qed
  have m0: "mat (2 ^ nat i * (2 * 2) * 2 ^ nat (n - i - 2)) (2 ^ nat i * (2 * 2) * 2 ^ nat (n - i - 2))
              (kron_mat (kron_mat ?K (kron_mat P0 I2)) ?L)"
    by (intro mat_kron_mat mK mL mA)
  have m1: "mat (2 ^ nat i * (2 * 2) * 2 ^ nat (n - i - 2)) (2 ^ nat i * (2 * 2) * 2 ^ nat (n - i - 2))
              (kron_mat (kron_mat ?K (kron_mat P1 Xm)) ?L)"
    by (intro mat_kron_mat mK mL mB)
  have v: "(i = i + 1) \<equiv> False"
    "(\<not> (0 \<le> i \<and> i \<le> n) \<or> \<not> (0 \<le> i + 1 \<and> i + 1 \<le> n)) \<equiv> False"
    "(i < i + 1) \<equiv> True"
    using assms by simp_all
  have "(cnot_nonadj i (i + 1) n :: error + 'a ndarray)
        = Inr (Mat (madd (kron_mat (kron_mat ?K (kron_mat P0 I2)) ?L)
                         (kron_mat (kron_mat ?K (kron_mat P1 Xm)) ?L)))"
    unfolding cnot_nonadj_def v if_False if_True t0 t1 then_e_Inr np_add_Mat [OF m0 m1]
    by (rule refl)
  also have "madd (kron_mat (kron_mat ?K (kron_mat P0 I2)) ?L)
                  (kron_mat (kron_mat ?K (kron_mat P1 Xm)) ?L)
             = kron_mat (kron_mat ?K (madd (kron_mat P0 I2) (kron_mat P1 Xm))) ?L"
    by (rule sandwich_add [OF mK mA mB mL])
  finally have "(cnot_nonadj i (i + 1) n :: error + 'a ndarray)
                = Inr (Mat (kron_mat (kron_mat ?K cnotm) ?L))"
    by (simp only: cnot_decomposition)
  with adj show "(cnot_adj i (i + 1) n :: error + 'a ndarray) = cnot_nonadj i (i + 1) n"
    by simp
  show "(cnot_adj i (i + 1) n :: error + 'a ndarray)
        = Inr (Mat (kron_mat (kron_mat ?K cnotm) ?L))"
    by (rule adj)
qed

text \<open>
  C3. For every \<open>i \<ge> 0\<close> with \<open>i + 1 \<le> n - 1\<close>, the adjacent path
  \<open>cnot_adj i (i + 1) n\<close> returns the same result as the projector decomposition
  \<open>cnot_nonadj i (i + 1) n\<close>: both succeed, with one and the same matrix.
\<close>

theorem cnot_adj_nonadj_agree:
  assumes "0 \<le> i" "i + 1 \<le> n - 1"
  shows "(cnot_adj i (i + 1) n :: error + 'a::comm_ring_1 ndarray) = cnot_nonadj i (i + 1) n
         \<and> (\<exists>M. (cnot_adj i (i + 1) n :: error + 'a ndarray) = Inr (Mat M))"
  using cnot_adj_eq_cnot_nonadj [OF assms, where ?'a = 'a] by blast

theorem cnot_adj_nonadj_agree_witness:
  "(cnot_adj 1 2 3 :: error + int ndarray) = cnot_nonadj 1 2 3
   \<and> (cnot_nonadj 1 2 3 :: error + int ndarray)
     = Inr (Mat (perm_mat [0, 1, 3, 2, 4, 5, 7, 6]))"
  using cnot_adj_nonadj_agree [of 1 3, where ?'a = int]
  by (simp add: cnot_nonadj_def gate_defs perm_mat_def eval_nat_numeral)

lemma dotv_Nil [simp]: "dotv [] v = 0" "dotv u [] = 0"
  by (simp_all add: dotv_def)

lemma dotv_Cons [simp]: "dotv (a # u) (b # v) = a * b + dotv u v"
  by (simp add: dotv_def)

lemma dotv_append:
  "length u = length u' \<Longrightarrow> dotv (u @ v) (u' @ v') = dotv u u' + dotv v v'"
  by (simp add: dotv_def)

lemma dotv_scal: "dotv (scal a u) (scal b v) = a * b * dotv u v"
proof (induction u arbitrary: v)
  case Nil
  show ?case by simp
next
  case (Cons x u)
  show ?case by (cases v) (simp_all add: Cons algebra_simps)
qed

lemma dotv_krow:
  assumes "length v = length v'"
  shows "dotv (krow u v) (krow u' v') = dotv u u' * dotv v v'"
proof (induction u arbitrary: u')
  case Nil
  show ?case by simp
next
  case (Cons a u)
  show ?case
  proof (cases u')
    case Nil
    then show ?thesis by simp
  next
    case (Cons b w)
    have "dotv (scal a v @ krow u v) (scal b v' @ krow w v')
          = dotv (scal a v) (scal b v') + dotv (krow u v) (krow w v')"
      by (rule dotv_append) (simp add: assms)
    then show ?thesis
      using Cons.IH [of w] by (simp add: Cons dotv_scal algebra_simps)
  qed
qed

lemma dotv_vadd_left:
  "length u = length u' \<Longrightarrow> dotv (vadd u u') v = dotv u v + dotv u' v"
proof (induction u u' arbitrary: v rule: list_induct2)
  case Nil
  show ?case by (simp add: vadd_def)
next
  case (Cons a u b u')
  show ?case
  proof (cases v)
    case Nil
    then show ?thesis by simp
  next
    case (Cons x w)
    then show ?thesis
      using Cons.IH [of w] by (simp add: vadd_def algebra_simps)
  qed
qed

lemma dotv_vadd_right:
  "length v = length v' \<Longrightarrow> dotv u (vadd v v') = dotv u v + dotv u v'"
proof (induction v v' arbitrary: u rule: list_induct2)
  case Nil
  show ?case by (simp add: vadd_def)
next
  case (Cons a v b v')
  show ?case
  proof (cases u)
    case Nil
    then show ?thesis by simp
  next
    case (Cons x w)
    then show ?thesis
      using Cons.IH [of w] by (simp add: vadd_def algebra_simps)
  qed
qed

lemma mat_transp:
  assumes "mat r c A" "0 < r"
  shows "mat c r (transp A)"
  using assms ncols_mat [OF assms] by (auto simp: transp_def mat_def)

lemma entry_transp:
  assumes "mat r c A" "0 < r" "i < r" "j < c"
  shows "transp A ! j ! i = A ! i ! j"
  using assms ncols_mat [OF assms(1,2)] by (simp add: transp_def mat_def)

lemma nth_transp:
  assumes "mat r c A" "0 < r" "j < c"
  shows "transp A ! j = map (\<lambda>row. row ! j) A"
  using assms ncols_mat [OF assms(1,2)] by (simp add: transp_def)

lemma transp_kron_mat:
  assumes "mat r1 c1 A" "mat r2 c2 B" "0 < r1" "0 < r2"
  shows "transp (kron_mat A B) = kron_mat (transp A) (transp B)"
proof (rule mat_eqI)
  have mk: "mat (r1 * r2) (c1 * c2) (kron_mat A B)"
    using assms by (intro mat_kron_mat)
  have pos: "0 < r1 * r2" using assms by simp
  show "mat (c1 * c2) (r1 * r2) (transp (kron_mat A B))"
    by (rule mat_transp [OF mk pos])
  have ta: "mat c1 r1 (transp A)" and tb: "mat c2 r2 (transp B)"
    using assms by (auto intro: mat_transp)
  show "mat (c1 * c2) (r1 * r2) (kron_mat (transp A) (transp B))"
    by (rule mat_kron_mat [OF ta tb])
  fix j i assume j: "j < c1 * c2" and i: "i < r1 * r2"
  have i1: "i div r2 < r1" and i2: "i mod r2 < r2" and j1: "j div c2 < c1"
    and j2: "j mod c2 < c2"
    using i j by (auto intro: div_less_mult mod_less_mult)
  have "transp (kron_mat A B) ! j ! i = kron_mat A B ! i ! j"
    by (rule entry_transp [OF mk pos i j])
  also have "\<dots> = A ! (i div r2) ! (j div c2) * B ! (i mod r2) ! (j mod c2)"
    by (rule entry_kron_mat [OF assms(1,2) i j])
  also have "\<dots> = transp A ! (j div c2) ! (i div r2) * transp B ! (j mod c2) ! (i mod r2)"
    using entry_transp [OF assms(1,3) i1 j1] entry_transp [OF assms(2,4) i2 j2] by simp
  also have "\<dots> = kron_mat (transp A) (transp B) ! j ! i"
    by (rule entry_kron_mat [OF ta tb j i, symmetric])
  finally show "transp (kron_mat A B) ! j ! i = kron_mat (transp A) (transp B) ! j ! i" .
qed

lemma mat_mmul:
  assumes "mat r k A" "mat k c B" "0 < k"
  shows "mat r c (mmul A B)"
  using assms mat_transp [OF assms(2,3)] by (auto simp: mmul_def mat_def)

lemma entry_mmul:
  assumes "mat r k A" "mat k c B" "0 < k" "i < r" "j < c"
  shows "mmul A B ! i ! j = dotv (A ! i) (transp B ! j)"
  using assms mat_transp [OF assms(2,3)] by (simp add: mmul_def mat_def)

lemma mmul_kron_mat:
  assumes "mat r1 k1 A" "mat k1 c1 C" "mat r2 k2 B" "mat k2 c2 D" "0 < k1" "0 < k2"
  shows "mmul (kron_mat A B) (kron_mat C D) = kron_mat (mmul A C) (mmul B D)"
proof (rule mat_eqI)
  have mab: "mat (r1 * r2) (k1 * k2) (kron_mat A B)"
    and mcd: "mat (k1 * k2) (c1 * c2) (kron_mat C D)"
    using assms by (auto intro: mat_kron_mat)
  have pos: "0 < k1 * k2" using assms by simp
  show "mat (r1 * r2) (c1 * c2) (mmul (kron_mat A B) (kron_mat C D))"
    by (rule mat_mmul [OF mab mcd pos])
  have mac: "mat r1 c1 (mmul A C)" and mbd: "mat r2 c2 (mmul B D)"
    using assms by (auto intro: mat_mmul)
  show "mat (r1 * r2) (c1 * c2) (kron_mat (mmul A C) (mmul B D))"
    by (rule mat_kron_mat [OF mac mbd])
  fix i j assume i: "i < r1 * r2" and j: "j < c1 * c2"
  have i1: "i div r2 < r1" and i2: "i mod r2 < r2" and j1: "j div c2 < c1"
    and j2: "j mod c2 < c2"
    using i j by (auto intro: div_less_mult mod_less_mult)
  have tc: "mat c1 k1 (transp C)" and td: "mat c2 k2 (transp D)"
    using assms by (auto intro: mat_transp)
  have row: "kron_mat A B ! i = krow (A ! (i div r2)) (B ! (i mod r2))"
    using nth_kron_mat [of i A B] i assms(1,3) by (simp add: mat_def)
  have col: "transp (kron_mat C D) ! j
             = krow (transp C ! (j div c2)) (transp D ! (j mod c2))"
    using nth_kron_mat [of j "transp C" "transp D"] j tc td
    by (simp add: transp_kron_mat [OF assms(2,4,5,6)] mat_def)
  have len: "length (B ! (i mod r2)) = length (transp D ! (j mod c2))"
    using matD(1) [OF assms(3) i2] matD(1) [OF td j2] by simp
  have "mmul (kron_mat A B) (kron_mat C D) ! i ! j
        = dotv (kron_mat A B ! i) (transp (kron_mat C D) ! j)"
    by (rule entry_mmul [OF mab mcd pos i j])
  also have "\<dots> = dotv (A ! (i div r2)) (transp C ! (j div c2))
                   * dotv (B ! (i mod r2)) (transp D ! (j mod c2))"
    unfolding row col by (rule dotv_krow [OF len])
  also have "\<dots> = mmul A C ! (i div r2) ! (j div c2) * mmul B D ! (i mod r2) ! (j mod c2)"
    using entry_mmul [OF assms(1,2,5) i1 j1] entry_mmul [OF assms(3,4,6) i2 j2] by simp
  also have "\<dots> = kron_mat (mmul A C) (mmul B D) ! i ! j"
    by (rule entry_kron_mat [OF mac mbd i j, symmetric])
  finally show "mmul (kron_mat A B) (kron_mat C D) ! i ! j
                = kron_mat (mmul A C) (mmul B D) ! i ! j" .
qed

lemma nth_madd:
  assumes "mat r c A" "mat r c B" "i < r"
  shows "madd A B ! i = vadd (A ! i) (B ! i)"
  using assms by (simp add: madd_def vadd_def mat_def)

lemma transp_madd:
  assumes "mat r c A" "mat r c B" "0 < r"
  shows "transp (madd A B) = madd (transp A) (transp B)"
proof (rule mat_eqI)
  have ms: "mat r c (madd A B)" by (rule mat_madd [OF assms(1,2)])
  have ta: "mat c r (transp A)" and tb: "mat c r (transp B)"
    using assms by (auto intro: mat_transp)
  show "mat c r (transp (madd A B))" by (rule mat_transp [OF ms assms(3)])
  show "mat c r (madd (transp A) (transp B))" by (rule mat_madd [OF ta tb])
  fix j i assume j: "j < c" and i: "i < r"
  show "transp (madd A B) ! j ! i = madd (transp A) (transp B) ! j ! i"
    using entry_transp [OF ms assms(3) i j] entry_madd [OF assms(1,2) i j]
      entry_madd [OF ta tb j i] entry_transp [OF assms(1,3) i j]
      entry_transp [OF assms(2,3) i j]
    by simp
qed

lemma mmul_madd_left:
  assumes "mat r k A" "mat r k B" "mat k c C" "0 < k"
  shows "mmul (madd A B) C = madd (mmul A C) (mmul B C)"
proof (rule mat_eqI)
  have ms: "mat r k (madd A B)" by (rule mat_madd [OF assms(1,2)])
  have ma: "mat r c (mmul A C)" and mb: "mat r c (mmul B C)"
    using assms by (auto intro: mat_mmul)
  show "mat r c (mmul (madd A B) C)" by (rule mat_mmul [OF ms assms(3,4)])
  show "mat r c (madd (mmul A C) (mmul B C))" by (rule mat_madd [OF ma mb])
  fix i j assume i: "i < r" and j: "j < c"
  have len: "length (A ! i) = length (B ! i)"
    using matD(1) [OF assms(1) i] matD(1) [OF assms(2) i] by simp
  show "mmul (madd A B) C ! i ! j = madd (mmul A C) (mmul B C) ! i ! j"
    using entry_mmul [OF ms assms(3,4) i j] entry_mmul [OF assms(1,3,4) i j]
      entry_mmul [OF assms(2,3,4) i j] entry_madd [OF ma mb i j]
      nth_madd [OF assms(1,2) i] dotv_vadd_left [OF len]
    by simp
qed

lemma mmul_madd_right:
  assumes "mat r k A" "mat k c B" "mat k c C" "0 < k"
  shows "mmul A (madd B C) = madd (mmul A B) (mmul A C)"
proof (rule mat_eqI)
  have ms: "mat k c (madd B C)" by (rule mat_madd [OF assms(2,3)])
  have ma: "mat r c (mmul A B)" and mb: "mat r c (mmul A C)"
    using assms by (auto intro: mat_mmul)
  have tb: "mat c k (transp B)" and tc: "mat c k (transp C)"
    using assms by (auto intro: mat_transp)
  show "mat r c (mmul A (madd B C))" by (rule mat_mmul [OF assms(1) ms assms(4)])
  show "mat r c (madd (mmul A B) (mmul A C))" by (rule mat_madd [OF ma mb])
  fix i j assume i: "i < r" and j: "j < c"
  have len: "length (transp B ! j) = length (transp C ! j)"
    using matD(1) [OF tb j] matD(1) [OF tc j] by simp
  show "mmul A (madd B C) ! i ! j = madd (mmul A B) (mmul A C) ! i ! j"
    using entry_mmul [OF assms(1) ms assms(4) i j] entry_mmul [OF assms(1,2,4) i j]
      entry_mmul [OF assms(1,3,4) i j] entry_madd [OF ma mb i j]
      nth_madd [OF tb tc j] dotv_vadd_right [OF len]
    by (simp add: transp_madd [OF assms(2,3,4)])
qed

lemma mat_zeros [simp]: "mat r c (zeros r c)"
  by (simp add: mat_def zeros_def)

lemma entry_zeros: "i < r \<Longrightarrow> j < c \<Longrightarrow> zeros r c ! i ! j = 0"
  by (simp add: zeros_def)

lemma madd_zeros_right:
  assumes "mat r c A"
  shows "madd A (zeros r c) = A"
proof (rule mat_eqI)
  show "mat r c (madd A (zeros r c))" by (rule mat_madd [OF assms mat_zeros])
  show "mat r c A" by (rule assms)
  fix i j assume "i < r" "j < c"
  then show "madd A (zeros r c) ! i ! j = A ! i ! j"
    using entry_madd [OF assms mat_zeros] by (simp add: entry_zeros)
qed

lemma madd_zeros_left:
  assumes "mat r c A"
  shows "madd (zeros r c) A = A"
proof (rule mat_eqI)
  show "mat r c (madd (zeros r c) A)" by (rule mat_madd [OF mat_zeros assms])
  show "mat r c A" by (rule assms)
  fix i j assume "i < r" "j < c"
  then show "madd (zeros r c) A ! i ! j = A ! i ! j"
    using entry_madd [OF mat_zeros assms] by (simp add: entry_zeros)
qed

lemma kron_mat_zeros_right:
  assumes "mat r1 c1 A"
  shows "kron_mat A (zeros r2 c2) = zeros (r1 * r2) (c1 * c2)"
proof (rule mat_eqI)
  show "mat (r1 * r2) (c1 * c2) (kron_mat A (zeros r2 c2))"
    by (rule mat_kron_mat [OF assms mat_zeros])
  show "mat (r1 * r2) (c1 * c2) (zeros (r1 * r2) (c1 * c2))" by simp
  fix i j assume ij: "i < r1 * r2" "j < c1 * c2"
  have "i mod r2 < r2" "j mod c2 < c2"
    using ij by (auto intro: mod_less_mult)
  then show "kron_mat A (zeros r2 c2) ! i ! j = zeros (r1 * r2) (c1 * c2) ! i ! j"
    using entry_kron_mat [OF assms mat_zeros ij] ij by (simp add: entry_zeros)
qed

lemma kron_mat_zeros_left:
  assumes "mat r2 c2 B"
  shows "kron_mat (zeros r1 c1) B = zeros (r1 * r2) (c1 * c2)"
proof (rule mat_eqI)
  show "mat (r1 * r2) (c1 * c2) (kron_mat (zeros r1 c1) B)"
    by (rule mat_kron_mat [OF mat_zeros assms])
  show "mat (r1 * r2) (c1 * c2) (zeros (r1 * r2) (c1 * c2))" by simp
  fix i j assume ij: "i < r1 * r2" "j < c1 * c2"
  have "i div r2 < r1" "j div c2 < c1"
    using ij by (auto intro: div_less_mult)
  then show "kron_mat (zeros r1 c1) B ! i ! j = zeros (r1 * r2) (c1 * c2) ! i ! j"
    using entry_kron_mat [OF mat_zeros assms ij] ij by (simp add: entry_zeros)
qed

lemma mat_dagger:
  assumes "mat r c A" "0 < r"
  shows "mat c r (dagger A)"
  using mat_transp [OF assms] by (auto simp: dagger_def mat_def)

lemma entry_dagger:
  assumes "mat r c A" "0 < r" "i < r" "j < c"
  shows "dagger A ! j ! i = cnj (A ! i ! j)"
  using entry_transp [OF assms] mat_transp [OF assms(1,2)] assms(3,4)
  by (simp add: dagger_def mat_def)

lemma dagger_kron_mat:
  assumes "mat r1 c1 A" "mat r2 c2 B" "0 < r1" "0 < r2"
  shows "dagger (kron_mat A B) = kron_mat (dagger A) (dagger B)"
proof (rule mat_eqI)
  have mk: "mat (r1 * r2) (c1 * c2) (kron_mat A B)"
    using assms by (intro mat_kron_mat)
  have pos: "0 < r1 * r2" using assms by simp
  show "mat (c1 * c2) (r1 * r2) (dagger (kron_mat A B))"
    by (rule mat_dagger [OF mk pos])
  have da: "mat c1 r1 (dagger A)" and db: "mat c2 r2 (dagger B)"
    using assms by (auto intro: mat_dagger)
  show "mat (c1 * c2) (r1 * r2) (kron_mat (dagger A) (dagger B))"
    by (rule mat_kron_mat [OF da db])
  fix j i assume j: "j < c1 * c2" and i: "i < r1 * r2"
  have i1: "i div r2 < r1" and i2: "i mod r2 < r2" and j1: "j div c2 < c1"
    and j2: "j mod c2 < c2"
    using i j by (auto intro: div_less_mult mod_less_mult)
  show "dagger (kron_mat A B) ! j ! i = kron_mat (dagger A) (dagger B) ! j ! i"
    using entry_dagger [OF mk pos i j] entry_kron_mat [OF assms(1,2) i j]
      entry_kron_mat [OF da db j i] entry_dagger [OF assms(1,3) i1 j1]
      entry_dagger [OF assms(2,4) i2 j2]
    by simp
qed

lemma dagger_madd:
  assumes "mat r c A" "mat r c B" "0 < r"
  shows "dagger (madd A B) = madd (dagger A) (dagger B)"
proof (rule mat_eqI)
  have ms: "mat r c (madd A B)" by (rule mat_madd [OF assms(1,2)])
  have da: "mat c r (dagger A)" and db: "mat c r (dagger B)"
    using assms by (auto intro: mat_dagger)
  show "mat c r (dagger (madd A B))" by (rule mat_dagger [OF ms assms(3)])
  show "mat c r (madd (dagger A) (dagger B))" by (rule mat_madd [OF da db])
  fix j i assume j: "j < c" and i: "i < r"
  show "dagger (madd A B) ! j ! i = madd (dagger A) (dagger B) ! j ! i"
    using entry_dagger [OF ms assms(3) i j] entry_madd [OF assms(1,2) i j]
      entry_madd [OF da db j i] entry_dagger [OF assms(1,3) i j]
      entry_dagger [OF assms(2,3) i j]
    by simp
qed

lemma tensor_at_0 [simp]: "tensor_at 0 f = [[1]]"
  by (simp add: tensor_at_def)

lemma tensor_at_Suc: "tensor_at (Suc n) f = kron_mat (tensor_at n f) (f n)"
  by (simp add: tensor_at_def)

lemma mmul_one: "mmul [[1]] [[1]] = ([[1]] :: 'a::comm_ring_1 list list)"
  by (simp add: mmul_def transp_def ncols_def)

lemma tensor_at_mmul:
  assumes "\<And>i. i < n \<Longrightarrow> mat 2 2 (f i) \<and> mat 2 2 (g i)"
  shows "mmul (tensor_at n f) (tensor_at n g) = tensor_at n (\<lambda>i. mmul (f i) (g i))"
  using assms
proof (induction n)
  case 0
  show ?case by (simp add: mmul_one)
next
  case (Suc n)
  have mf: "mat (2 ^ n) (2 ^ n) (tensor_at n f)" and mg: "mat (2 ^ n) (2 ^ n) (tensor_at n g)"
    using Suc.prems by (auto intro: mat_tensor_at)
  have m2: "mat 2 2 (f n)" "mat 2 2 (g n)" using Suc.prems [of n] by simp_all
  have "mmul (kron_mat (tensor_at n f) (f n)) (kron_mat (tensor_at n g) (g n))
        = kron_mat (mmul (tensor_at n f) (tensor_at n g)) (mmul (f n) (g n))"
    by (rule mmul_kron_mat [OF mf mg m2]) simp_all
  then show ?case
    using Suc.IH Suc.prems by (simp add: tensor_at_Suc)
qed

lemma dagger_one: "dagger [[1]] = [[1]]"
  by (simp add: dagger_def transp_def ncols_def)

lemma tensor_at_dagger:
  assumes "\<And>i. i < n \<Longrightarrow> mat 2 2 (f i)"
  shows "dagger (tensor_at n f) = tensor_at n (\<lambda>i. dagger (f i))"
  using assms
proof (induction n)
  case 0
  show ?case by (simp add: dagger_one)
next
  case (Suc n)
  have mf: "mat (2 ^ n) (2 ^ n) (tensor_at n f)"
    using Suc.prems by (auto intro: mat_tensor_at)
  have m2: "mat 2 2 (f n)" using Suc.prems [of n] by simp
  have "dagger (kron_mat (tensor_at n f) (f n))
        = kron_mat (dagger (tensor_at n f)) (dagger (f n))"
    by (rule dagger_kron_mat [OF mf m2]) simp_all
  then show ?case
    using Suc.IH Suc.prems by (simp add: tensor_at_Suc)
qed

lemma tensor_at_zeros:
  assumes c: "c < n"
    and m: "\<And>i. i < n \<Longrightarrow> mat 2 2 (f i)"
    and z: "f c = zeros 2 2"
  shows "tensor_at n f = zeros (2 ^ n) (2 ^ n)"
proof -
  let ?K = "kronL (map f [0..<c])" and ?L = "kronL (map f [Suc c..<n])"
  have mK: "mat (2 ^ c) (2 ^ c) ?K"
    using mat_kronL_map [of "[0..<c]" f] m c by simp
  have mL: "mat (2 ^ (n - Suc c)) (2 ^ (n - Suc c)) ?L"
    using mat_kronL_map [of "[Suc c..<n]" f] m by simp
  have e: "c + (1 + (n - Suc c)) = n" using c by simp
  have "tensor_at n f = kron_mat (kron_mat ?K (zeros 2 2)) ?L"
    by (simp add: tensor_at_split [OF c] z)
  also have "\<dots> = kron_mat (zeros (2 ^ c * 2) (2 ^ c * 2)) ?L"
    by (simp only: kron_mat_zeros_right [OF mK])
  also have "\<dots> = zeros (2 ^ c * 2 * 2 ^ (n - Suc c)) (2 ^ c * 2 * 2 ^ (n - Suc c))"
    by (rule kron_mat_zeros_left [OF mL])
  also have "(2::nat) ^ c * 2 * 2 ^ (n - Suc c) = 2 ^ n"
    using e by (metis power_add power_one_right mult.assoc)
  finally show ?thesis .
qed

lemma dagger_I2: "dagger I2 = I2"
  by (simp add: dagger_def transp_def ncols_def I2_def upt_rec)

lemma dagger_P0: "dagger P0 = P0"
  by (simp add: dagger_def transp_def ncols_def P0_def upt_rec)

lemma dagger_P1: "dagger P1 = P1"
  by (simp add: dagger_def transp_def ncols_def P1_def upt_rec)

lemma dagger_Xm: "dagger Xm = Xm"
  by (simp add: dagger_def transp_def ncols_def Xm_def upt_rec)

lemmas mmul_eval = mmul_def transp_def ncols_def upt_rec I2_def P0_def P1_def Xm_def zeros_def

lemma mmul_blocks:
  "mmul I2 I2 = (I2 :: 'a::comm_ring_1 list list)"
  "mmul P0 P0 = (P0 :: 'a list list)"
  "mmul P1 P1 = (P1 :: 'a list list)"
  "mmul P0 P1 = (zeros 2 2 :: 'a list list)"
  "mmul P1 P0 = (zeros 2 2 :: 'a list list)"
  "mmul Xm Xm = (I2 :: 'a list list)"
  by (simp_all add: mmul_eval eval_nat_numeral)

lemma mat_dagger2: "mat 2 2 A \<Longrightarrow> mat 2 2 (dagger A)"
  by (rule mat_dagger) simp_all

lemma madd_assoc:
  assumes "mat r c A" "mat r c B" "mat r c C"
  shows "madd (madd A B) C = madd A (madd B C)"
proof (rule mat_eqI)
  have mab: "mat r c (madd A B)" and mbc: "mat r c (madd B C)"
    using assms by (auto intro: mat_madd)
  show "mat r c (madd (madd A B) C)" by (rule mat_madd [OF mab assms(3)])
  show "mat r c (madd A (madd B C))" by (rule mat_madd [OF assms(1) mbc])
  fix i j assume ij: "i < r" "j < c"
  show "madd (madd A B) C ! i ! j = madd A (madd B C) ! i ! j"
    using entry_madd [OF mab assms(3) ij] entry_madd [OF assms(1,2) ij]
      entry_madd [OF assms(1) mbc ij] entry_madd [OF assms(2,3) ij]
    by (simp add: add.assoc)
qed

lemma orth_sum:
  assumes "mat d d A" "mat d d B" "0 < d"
    and "mmul A (dagger B) = zeros d d" "mmul B (dagger A) = zeros d d"
  shows "mmul (madd A B) (dagger (madd A B))
         = madd (mmul A (dagger A)) (mmul B (dagger B))"
proof -
  have da: "mat d d (dagger A)" and db: "mat d d (dagger B)"
    using assms by (auto intro: mat_dagger)
  have ds: "mat d d (madd (dagger A) (dagger B))" by (rule mat_madd [OF da db])
  have maa: "mat d d (mmul A (dagger A))" and mbb: "mat d d (mmul B (dagger B))"
    using assms da db by (auto intro: mat_mmul)
  have "mmul (madd A B) (dagger (madd A B)) = mmul (madd A B) (madd (dagger A) (dagger B))"
    by (simp only: dagger_madd [OF assms(1,2,3)])
  also have "\<dots> = madd (mmul A (madd (dagger A) (dagger B)))
                        (mmul B (madd (dagger A) (dagger B)))"
    by (rule mmul_madd_left [OF assms(1,2) ds assms(3)])
  also have "mmul A (madd (dagger A) (dagger B))
             = madd (mmul A (dagger A)) (mmul A (dagger B))"
    by (rule mmul_madd_right [OF assms(1) da db assms(3)])
  also have "mmul B (madd (dagger A) (dagger B))
             = madd (mmul B (dagger A)) (mmul B (dagger B))"
    by (rule mmul_madd_right [OF assms(2) da db assms(3)])
  finally show ?thesis
    by (simp only: assms(4,5) madd_zeros_right [OF maa] madd_zeros_left [OF mbb])
qed

lemma orth_madd_left:
  assumes "mat d d A" "mat d d B" "mat d d C" "0 < d"
    and "mmul A (dagger C) = zeros d d" "mmul B (dagger C) = zeros d d"
  shows "mmul (madd A B) (dagger C) = zeros d d"
proof -
  have dc: "mat d d (dagger C)" using assms by (auto intro: mat_dagger)
  have "mmul (madd A B) (dagger C) = madd (mmul A (dagger C)) (mmul B (dagger C))"
    by (rule mmul_madd_left [OF assms(1,2) dc assms(4)])
  then show ?thesis
    by (simp only: assms(5,6) madd_zeros_left [OF mat_zeros])
qed

lemma orth_madd_right:
  assumes "mat d d A" "mat d d B" "mat d d C" "0 < d"
    and "mmul C (dagger A) = zeros d d" "mmul C (dagger B) = zeros d d"
  shows "mmul C (dagger (madd A B)) = zeros d d"
proof -
  have da: "mat d d (dagger A)" and db: "mat d d (dagger B)"
    using assms by (auto intro: mat_dagger)
  have "mmul C (dagger (madd A B)) = mmul C (madd (dagger A) (dagger B))"
    by (simp only: dagger_madd [OF assms(1,2,4)])
  also have "\<dots> = madd (mmul C (dagger A)) (mmul C (dagger B))"
    by (rule mmul_madd_right [OF assms(3) da db assms(4)])
  finally show ?thesis
    by (simp only: assms(5,6) madd_zeros_left [OF mat_zeros])
qed

lemma tensor_self:
  assumes "\<And>i. i < n \<Longrightarrow> mat 2 2 (f i)"
  shows "mmul (tensor_at n f) (dagger (tensor_at n f))
         = tensor_at n (\<lambda>i. mmul (f i) (dagger (f i)))"
proof -
  have "mmul (tensor_at n f) (tensor_at n (\<lambda>i. dagger (f i)))
        = tensor_at n (\<lambda>i. mmul (f i) (dagger (f i)))"
    by (rule tensor_at_mmul) (simp add: assms mat_dagger2)
  then show ?thesis by (simp only: tensor_at_dagger [of n f, OF assms])
qed

lemma tensor_orth:
  assumes "c < n"
    and "\<And>i. i < n \<Longrightarrow> mat 2 2 (f i) \<and> mat 2 2 (g i)"
    and "mmul (f c) (dagger (g c)) = zeros 2 2"
  shows "mmul (tensor_at n f) (dagger (tensor_at n g)) = zeros (2 ^ n) (2 ^ n)"
proof -
  have mg: "\<And>i. i < n \<Longrightarrow> mat 2 2 (g i)" using assms(2) by simp
  have "mmul (tensor_at n f) (tensor_at n (\<lambda>i. dagger (g i)))
        = tensor_at n (\<lambda>i. mmul (f i) (dagger (g i)))"
    by (rule tensor_at_mmul) (simp add: assms mat_dagger2)
  also have "\<dots> = zeros (2 ^ n) (2 ^ n)"
  proof (rule tensor_at_zeros [OF assms(1)])
    fix i assume "i < n"
    then show "mat 2 2 (mmul (f i) (dagger (g i)))"
      using assms(2) [of i] by (intro mat_mmul [of 2 2 _ 2] mat_dagger2) simp_all
  next
    show "mmul (f c) (dagger (g c)) = zeros 2 2" by (rule assms(3))
  qed
  finally show ?thesis by (simp only: tensor_at_dagger [of n g, OF mg])
qed

lemma control_unitary:
  assumes "c < n" "t < n" "c \<noteq> t" "mat 2 2 G" "mmul G (dagger G) = I2"
  shows "mmul (madd (tensor_at n (\<lambda>i. if i = c then P0 else I2))
                    (tensor_at n (\<lambda>i. if i = c then P1 else if i = t then G else I2)))
              (dagger (madd (tensor_at n (\<lambda>i. if i = c then P0 else I2))
                    (tensor_at n (\<lambda>i. if i = c then P1 else if i = t then G else I2))))
         = ident (2 ^ n)"
proof -
  let ?f0 = "\<lambda>i. if i = c then P0 else (I2 :: complex list list)"
  let ?f1 = "\<lambda>i. if i = c then P1 else if i = t then G else (I2 :: complex list list)"
  let ?g1 = "\<lambda>i. if i = c then P1 else (I2 :: complex list list)"
  let ?d = "2 ^ n :: nat"
  have m0: "\<And>i. mat 2 2 (?f0 i)" and m1: "\<And>i. mat 2 2 (?f1 i)"
    using assms(4) by simp_all
  have M0: "mat ?d ?d (tensor_at n ?f0)" and M1: "mat ?d ?d (tensor_at n ?f1)"
    using m0 m1 by (auto intro!: mat_tensor_at)
  have o01: "mmul (tensor_at n ?f0) (dagger (tensor_at n ?f1)) = zeros ?d ?d"
    by (rule tensor_orth [OF assms(1)]) (simp_all add: assms(4) dagger_P1 mmul_blocks)
  have o10: "mmul (tensor_at n ?f1) (dagger (tensor_at n ?f0)) = zeros ?d ?d"
    by (rule tensor_orth [OF assms(1)]) (simp_all add: assms(4) dagger_P0 mmul_blocks)
  have s0: "mmul (tensor_at n ?f0) (dagger (tensor_at n ?f0)) = tensor_at n ?f0"
    unfolding tensor_self [of n ?f0, OF m0]
    by (rule tensor_at_cong) (simp add: dagger_P0 dagger_I2 mmul_blocks)
  have s1: "mmul (tensor_at n ?f1) (dagger (tensor_at n ?f1)) = tensor_at n ?g1"
    unfolding tensor_self [of n ?f1, OF m1]
    by (rule tensor_at_cong) (simp add: dagger_P1 dagger_I2 mmul_blocks assms(5))
  have "mmul (madd (tensor_at n ?f0) (tensor_at n ?f1))
             (dagger (madd (tensor_at n ?f0) (tensor_at n ?f1)))
        = madd (tensor_at n ?f0) (tensor_at n ?g1)"
    unfolding orth_sum [OF M0 M1 _ o01 o10, simplified] s0 s1 by (rule refl)
  also have "\<dots> = tensor_at n (\<lambda>i. I2)"
    by (rule tensor_at_add [OF assms(1)]) (simp_all add: P0_plus_P1)
  also have "\<dots> = ident ?d"
    by (rule tensor_at_ident) simp
  finally show ?thesis .
qed

lemma place3_swap23: "b \<noteq> d \<Longrightarrow> place3 a d b y w z = place3 a b d y z w"
  by (auto simp: place3_def fun_eq_iff)

lemma place3_rot: "a \<noteq> b \<Longrightarrow> a \<noteq> d \<Longrightarrow> b \<noteq> d \<Longrightarrow> place3 d a b w y z = place3 a b d y z w"
  by (auto simp: place3_def fun_eq_iff)

lemma mat_place3 [simp]:
  "mat 2 2 y \<Longrightarrow> mat 2 2 z \<Longrightarrow> mat 2 2 w \<Longrightarrow> mat 2 2 (place3 a b d y z w i)"
  by (simp add: place3_def)

lemma kron_pad3_nd:
  assumes "0 \<le> a" "a < b" "b < d" "d < n" "is_Mat y" "is_Mat z" "is_Mat w"
  shows "kron (py_rep I a @ [y] @ py_rep I (b - a - 1) @ [z] @ py_rep I (d - b - 1)
               @ [w] @ py_rep I (n - d - 1))
         = Inr (Mat (tensor_at (nat n)
                      (place3 (nat a) (nat b) (nat d) (rows y) (rows z) (rows w))))"
proof -
  obtain Y Z W where e: "y = Mat Y" "z = Mat Z" "w = Mat W"
    using assms(5,6,7) by (cases y; cases z; cases w) auto
  have "place3 (nat a) (nat b) (nat d) Y Z W
        = (\<lambda>i. if i = nat a then Y else if i = nat b then Z else if i = nat d then W else I2)"
    by (simp add: place3_def fun_eq_iff)
  then show ?thesis
    using kron_pad3 [OF assms(1,2,3,4), of Y Z W] by (simp add: e)
qed

lemma is_Mat_gates [simp]:
  "is_Mat I" "is_Mat X" "is_Mat (np_outer zero zero)" "is_Mat (np_outer one one)"
  by (simp_all add: I_Mat X_Mat outer_zero outer_one)

lemma rows_gates [simp]:
  "rows I = I2" "rows X = Xm" "rows (np_outer zero zero) = P0" "rows (np_outer one one) = P1"
  by (simp_all add: I_Mat X_Mat outer_zero outer_one)

lemma sum4_Mat:
  assumes "mat d d A" "mat d d B" "mat d d C" "mat d d D"
  shows "sum4 (Inr (Mat A)) (Inr (Mat B)) (Inr (Mat C)) (Inr (Mat D))
         = Inr (Mat (madd (madd (madd A B) C) D))"
proof -
  have m12: "mat d d (madd A B)" by (rule mat_madd [OF assms(1,2)])
  have m123: "mat d d (madd (madd A B) C)" by (rule mat_madd [OF m12 assms(3)])
  show ?thesis
    unfolding sum4_def then_e_Inr np_add_Mat [OF assms(1,2)] np_add_Mat [OF m12 assms(3)]
      np_add_Mat [OF m123 assms(4)]
    by (rule refl)
qed

lemma TOFFOLI_eq:
  assumes "control1 \<noteq> target" "control2 \<noteq> target" "control1 \<noteq> control2"
    and "0 \<le> control1" "control1 \<le> n - 1" "0 \<le> target" "target \<le> n - 1"
    and "0 \<le> control2" "control2 \<le> n - 1"
  shows "(TOFFOLI control1 control2 target n :: error + 'a::comm_ring_1 ndarray)
         = Inr (Mat (toffoli_sum (nat n) (nat (min control1 control2))
                       (nat (max control1 control2)) (nat target)))"
proof -
  let ?c1 = "min control1 control2" and ?c2 = "max control1 control2"
  have v1: "(control1 = target \<or> control2 = target) \<equiv> False"
    using assms by simp
  have v2: "(\<not> (0 \<le> control1 \<and> control1 \<le> n - 1) \<or> \<not> (0 \<le> target \<and> target \<le> n - 1)
             \<or> \<not> (0 \<le> control2 \<and> control2 \<le> n - 1)) \<equiv> False"
    using assms by simp
  have lt: "?c1 < ?c2" "0 \<le> ?c1" "?c2 < n" "0 \<le> target" "target < n"
    using assms by simp_all
  have ne: "nat ?c1 \<noteq> nat ?c2" "nat ?c1 \<noteq> nat target" "nat ?c2 \<noteq> nat target"
    using assms by (auto simp: min_def max_def)
  have tri: "?c2 < target \<or> (?c1 < target \<and> target < ?c2) \<or> target < ?c1"
    using assms(1,2) by linarith
  then consider (after) "?c2 < target"
    | (between) "\<not> ?c2 < target" "?c1 < target" "target < ?c2"
    | (before) "\<not> ?c2 < target" "\<not> (?c1 < target \<and> target < ?c2)" "target < ?c1"
    by blast
  then show ?thesis
  proof cases
    case after
    note b = Eq_TrueI [OF after]
    note K = kron_pad3_nd [where ?'a = 'a, OF lt(2) lt(1) after lt(5)]
    note z = is_Mat_gates(3) and e = is_Mat_gates(4) and i = is_Mat_gates(1)
      and x = is_Mat_gates(2)
    note t1 = K [OF z z i, unfolded rows_gates] and t2 = K [OF e z i, unfolded rows_gates]
      and t3 = K [OF z e i, unfolded rows_gates] and t4 = K [OF e e x, unfolded rows_gates]
    show ?thesis
      unfolding TOFFOLI_def Let_def v1 v2 b if_False if_True toffoli_sum_def t1 t2 t3 t4
      by (rule sum4_Mat) (rule mat_tensor_at, simp)+
  next
    case between
    note b = Eq_FalseI [OF between(1)] Eq_TrueI [OF conjI [OF between(2,3)]]
    note K = kron_pad3_nd [where ?'a = 'a, OF lt(2) between(2,3) lt(3)]
    have sw: "\<And>y z w. place3 (nat ?c1) (nat target) (nat ?c2) y w z
                      = place3 (nat ?c1) (nat ?c2) (nat target) y z (w :: 'a list list)"
      by (rule place3_swap23) (use ne in simp)
    note z = is_Mat_gates(3) and e = is_Mat_gates(4) and i = is_Mat_gates(1)
      and x = is_Mat_gates(2)
    note t1 = K [OF z i z, unfolded rows_gates sw] and t2 = K [OF e i z, unfolded rows_gates sw]
      and t3 = K [OF z i e, unfolded rows_gates sw] and t4 = K [OF e x e, unfolded rows_gates sw]
    show ?thesis
      unfolding TOFFOLI_def Let_def v1 v2 b if_False if_True toffoli_sum_def t1 t2 t3 t4
      by (rule sum4_Mat) (rule mat_tensor_at, simp)+
  next
    case before
    note b = Eq_FalseI [OF before(1)] Eq_FalseI [OF before(2)] Eq_TrueI [OF before(3)]
    note K = kron_pad3_nd [where ?'a = 'a, OF lt(4) before(3) lt(1) lt(3)]
    have sw: "\<And>y z w. place3 (nat target) (nat ?c1) (nat ?c2) w y z
                      = place3 (nat ?c1) (nat ?c2) (nat target) y z (w :: 'a list list)"
      by (rule place3_rot) (use ne in simp_all)
    note z = is_Mat_gates(3) and e = is_Mat_gates(4) and i = is_Mat_gates(1)
      and x = is_Mat_gates(2)
    note t1 = K [OF i z z, unfolded rows_gates sw] and t2 = K [OF i e z, unfolded rows_gates sw]
      and t3 = K [OF i z e, unfolded rows_gates sw] and t4 = K [OF x e e, unfolded rows_gates sw]
    show ?thesis
      unfolding TOFFOLI_def Let_def v1 v2 b if_False if_True toffoli_sum_def t1 t2 t3 t4
      by (rule sum4_Mat) (rule mat_tensor_at, simp)+
  qed
qed

lemma place3_at [simp]:
  "place3 a b d y z w a = y"
  "a \<noteq> b \<Longrightarrow> place3 a b d y z w b = z"
  "a \<noteq> d \<Longrightarrow> b \<noteq> d \<Longrightarrow> place3 a b d y z w d = w"
  by (simp_all add: place3_def)

lemma place3_dagger_self:
  assumes "mmul y (dagger y) = y'" "mmul z (dagger z) = z'" "mmul w (dagger w) = w'"
  shows "mmul (place3 a b d y z w i) (dagger (place3 a b d y z w i)) = place3 a b d y' z' w' i"
  using assms by (simp add: place3_def dagger_I2 mmul_blocks)

lemma toffoli_unitary:
  assumes "c1 < n" "c2 < n" "t < n" "c1 \<noteq> c2" "c1 \<noteq> t" "c2 \<noteq> t"
  shows "mmul (toffoli_sum n c1 c2 t) (dagger (toffoli_sum n c1 c2 t)) = ident (2 ^ n)"
proof -
  let ?d = "2 ^ n :: nat"
  let ?T = "\<lambda>y z w. tensor_at n (place3 c1 c2 t y z w) :: complex list list"
  let ?A = "?T P0 P0 I2" and ?B = "?T P1 P0 I2" and ?C = "?T P0 P1 I2" and ?D = "?T P1 P1 Xm"
  have mT: "\<And>y z w. mat 2 2 y \<Longrightarrow> mat 2 2 z \<Longrightarrow> mat 2 2 w \<Longrightarrow> mat ?d ?d (?T y z w)"
    by (rule mat_tensor_at) simp
  have mA: "mat ?d ?d ?A" and mB: "mat ?d ?d ?B" and mC: "mat ?d ?d ?C" and mD: "mat ?d ?d ?D"
    by (simp_all add: mT)
  have pos: "0 < ?d" by simp
  have orth1: "\<And>y z w y' z' w'. mat 2 2 y \<Longrightarrow> mat 2 2 z \<Longrightarrow> mat 2 2 w \<Longrightarrow> mat 2 2 y'
      \<Longrightarrow> mat 2 2 z' \<Longrightarrow> mat 2 2 w' \<Longrightarrow> mmul y (dagger y') = zeros 2 2
      \<Longrightarrow> mmul (?T y z w) (dagger (?T y' z' w')) = zeros ?d ?d"
    by (rule tensor_orth [OF assms(1)]) simp_all
  have orth2: "\<And>y z w y' z' w'. mat 2 2 y \<Longrightarrow> mat 2 2 z \<Longrightarrow> mat 2 2 w \<Longrightarrow> mat 2 2 y'
      \<Longrightarrow> mat 2 2 z' \<Longrightarrow> mat 2 2 w' \<Longrightarrow> mmul z (dagger z') = zeros 2 2
      \<Longrightarrow> mmul (?T y z w) (dagger (?T y' z' w')) = zeros ?d ?d"
    by (rule tensor_orth [OF assms(2)]) (simp_all add: assms(4))
  have z01: "mmul P0 (dagger P1) = (zeros 2 2 :: complex list list)"
    and z10: "mmul P1 (dagger P0) = (zeros 2 2 :: complex list list)"
    by (simp_all add: dagger_P0 dagger_P1 mmul_blocks)
  have AB: "mmul ?A (dagger ?B) = zeros ?d ?d" and BA: "mmul ?B (dagger ?A) = zeros ?d ?d"
    and AC: "mmul ?A (dagger ?C) = zeros ?d ?d" and CA: "mmul ?C (dagger ?A) = zeros ?d ?d"
    and AD: "mmul ?A (dagger ?D) = zeros ?d ?d" and DA: "mmul ?D (dagger ?A) = zeros ?d ?d"
    and BC: "mmul ?B (dagger ?C) = zeros ?d ?d" and CB: "mmul ?C (dagger ?B) = zeros ?d ?d"
    and BD: "mmul ?B (dagger ?D) = zeros ?d ?d" and DB: "mmul ?D (dagger ?B) = zeros ?d ?d"
    and CD: "mmul ?C (dagger ?D) = zeros ?d ?d" and DC: "mmul ?D (dagger ?C) = zeros ?d ?d"
    by (rule orth1 orth2; simp add: z01 z10)+
  have self: "\<And>y z w y' z' w'. mat 2 2 y \<Longrightarrow> mat 2 2 z \<Longrightarrow> mat 2 2 w
      \<Longrightarrow> mmul y (dagger y) = y' \<Longrightarrow> mmul z (dagger z) = z' \<Longrightarrow> mmul w (dagger w) = w'
      \<Longrightarrow> mmul (?T y z w) (dagger (?T y z w)) = ?T y' z' w'"
  proof -
    fix y z w y' z' w' :: "complex list list"
    assume m: "mat 2 2 y" "mat 2 2 z" "mat 2 2 w"
      and e: "mmul y (dagger y) = y'" "mmul z (dagger z) = z'" "mmul w (dagger w) = w'"
    have "mmul (?T y z w) (dagger (?T y z w))
          = tensor_at n (\<lambda>i. mmul (place3 c1 c2 t y z w i) (dagger (place3 c1 c2 t y z w i)))"
      by (rule tensor_self) (simp add: m)
    also have "\<dots> = ?T y' z' w'"
      by (rule tensor_at_cong) (rule place3_dagger_self [OF e])
    finally show "mmul (?T y z w) (dagger (?T y z w)) = ?T y' z' w'" .
  qed
  have p0: "mmul P0 (dagger P0) = (P0 :: complex list list)"
    and p1: "mmul P1 (dagger P1) = (P1 :: complex list list)"
    and pi: "mmul I2 (dagger I2) = (I2 :: complex list list)"
    and px: "mmul Xm (dagger Xm) = (I2 :: complex list list)"
    by (simp_all add: dagger_P0 dagger_P1 dagger_I2 dagger_Xm mmul_blocks)
  have AA: "mmul ?A (dagger ?A) = ?A" by (rule self) (simp_all add: p0 pi)
  have BB: "mmul ?B (dagger ?B) = ?B" by (rule self) (simp_all add: p0 p1 pi)
  have CC: "mmul ?C (dagger ?C) = ?C" by (rule self) (simp_all add: p0 p1 pi)
  have DD: "mmul ?D (dagger ?D) = ?T P1 P1 I2" by (rule self) (simp_all add: p1 px)
  let ?S1 = "madd ?A ?B" and ?S2 = "madd (madd ?A ?B) ?C"
  have mS1: "mat ?d ?d ?S1" by (rule mat_madd [OF mA mB])
  have mS2: "mat ?d ?d ?S2" by (rule mat_madd [OF mS1 mC])
  have S1: "mmul ?S1 (dagger ?S1) = madd ?A ?B"
    unfolding orth_sum [OF mA mB pos AB BA] AA BB by (rule refl)
  have S1C: "mmul ?S1 (dagger ?C) = zeros ?d ?d"
    by (rule orth_madd_left [OF mA mB mC pos AC BC])
  have CS1: "mmul ?C (dagger ?S1) = zeros ?d ?d"
    by (rule orth_madd_right [OF mA mB mC pos CA CB])
  have S2: "mmul ?S2 (dagger ?S2) = madd (madd ?A ?B) ?C"
    unfolding orth_sum [OF mS1 mC pos S1C CS1] S1 CC by (rule refl)
  have S1D: "mmul ?S1 (dagger ?D) = zeros ?d ?d"
    by (rule orth_madd_left [OF mA mB mD pos AD BD])
  have DS1: "mmul ?D (dagger ?S1) = zeros ?d ?d"
    by (rule orth_madd_right [OF mA mB mD pos DA DB])
  have S2D: "mmul ?S2 (dagger ?D) = zeros ?d ?d"
    by (rule orth_madd_left [OF mS1 mC mD pos S1D CD])
  have DS2: "mmul ?D (dagger ?S2) = zeros ?d ?d"
    by (rule orth_madd_right [OF mS1 mC mD pos DS1 DC])
  have "mmul (toffoli_sum n c1 c2 t) (dagger (toffoli_sum n c1 c2 t))
        = madd (madd (madd ?A ?B) ?C) (?T P1 P1 I2)"
    unfolding toffoli_sum_def orth_sum [OF mS2 mD pos S2D DS2] S2 DD by (rule refl)
  also have "\<dots> = madd (madd ?A ?B) (madd ?C (?T P1 P1 I2))"
    by (rule madd_assoc [OF mS1 mC]) (simp add: mT)
  also have "madd ?A ?B = ?T I2 P0 I2"
    by (rule tensor_at_add [OF assms(1)]) (simp_all add: P0_plus_P1, simp_all add: place3_def)
  also have "madd ?C (?T P1 P1 I2) = ?T I2 P1 I2"
    by (rule tensor_at_add [OF assms(1)]) (simp_all add: P0_plus_P1, simp_all add: place3_def)
  also have "madd (?T I2 P0 I2) (?T I2 P1 I2) = ?T I2 I2 I2"
    by (rule tensor_at_add [OF assms(2)])
       (simp_all add: P0_plus_P1 assms(4), simp_all add: place3_def)
  also have "\<dots> = ident ?d"
    by (rule tensor_at_ident) (simp add: place3_def)
  finally show ?thesis .
qed

text \<open>
  C4. For a unitary 2 x 2 gate \<open>G\<close> (\<open>G\<close> times its conjugate transpose is the
  identity) and distinct control and target between 0 and \<open>n - 1\<close>, the operator
  returned by \<open>control_gate\<close> is a \<open>2^n x 2^n\<close> matrix \<open>U\<close> with
  \<open>U\<close> times its conjugate transpose equal to the identity; and so is the operator
  returned by \<open>TOFFOLI\<close> for pairwise distinct controls and target between 0 and
  \<open>n - 1\<close>.
\<close>

theorem controlled_operators_unitary:
  "(mat 2 2 G \<and> unitary G \<and> c \<noteq> t \<and> 0 \<le> c \<and> c \<le> n - 1 \<and> 0 \<le> t \<and> t \<le> n - 1
      \<longrightarrow> (\<exists>U. control_gate (Mat G) c t n = Inr (Mat U)
                \<and> mat (2 ^ nat n) (2 ^ nat n) U \<and> unitary U))
   \<and> (control1 \<noteq> target \<and> control2 \<noteq> target \<and> control1 \<noteq> control2
       \<and> 0 \<le> control1 \<and> control1 \<le> m - 1 \<and> 0 \<le> target \<and> target \<le> m - 1
       \<and> 0 \<le> control2 \<and> control2 \<le> m - 1
      \<longrightarrow> (\<exists>U. TOFFOLI control1 control2 target m = Inr (Mat U)
                \<and> mat (2 ^ nat m) (2 ^ nat m) U \<and> unitary U))"
proof (intro conjI impI)
  assume h: "mat 2 2 G \<and> unitary G \<and> c \<noteq> t \<and> 0 \<le> c \<and> c \<le> n - 1 \<and> 0 \<le> t \<and> t \<le> n - 1"
  let ?U = "madd (tensor_at (nat n) (\<lambda>i. if i = nat c then P0 else I2))
                 (tensor_at (nat n) (\<lambda>i. if i = nat c then P1 else if i = nat t then G else I2))"
  have n1: "1 \<le> n" using h by simp
  have G: "mmul G (dagger G) = I2"
    using h by (simp add: unitary_def mat_def I2_ident)
  have e: "control_gate (Mat G) c t n = Inr (Mat ?U)" and m: "mat (2 ^ nat n) (2 ^ nat n) ?U"
    using control_gate_eq [of n c t G] n1 h by simp_all
  have "mmul ?U (dagger ?U) = ident (2 ^ nat n)"
    by (rule control_unitary) (use h G in auto)
  then have "unitary ?U"
    using m by (simp add: unitary_def mat_def)
  with e m show "\<exists>U. control_gate (Mat G) c t n = Inr (Mat U)
                    \<and> mat (2 ^ nat n) (2 ^ nat n) U \<and> unitary U"
    by blast
next
  assume h: "control1 \<noteq> target \<and> control2 \<noteq> target \<and> control1 \<noteq> control2
       \<and> 0 \<le> control1 \<and> control1 \<le> m - 1 \<and> 0 \<le> target \<and> target \<le> m - 1
       \<and> 0 \<le> control2 \<and> control2 \<le> m - 1"
  let ?c1 = "nat (min control1 control2)" and ?c2 = "nat (max control1 control2)"
  let ?U = "toffoli_sum (nat m) ?c1 ?c2 (nat target) :: complex list list"
  have e: "TOFFOLI control1 control2 target m = Inr (Mat ?U)"
    by (rule TOFFOLI_eq) (use h in simp_all)
  have u: "mmul ?U (dagger ?U) = ident (2 ^ nat m)"
    by (rule toffoli_unitary) (use h in \<open>auto simp: min_def max_def\<close>)
  have mm: "mat (2 ^ nat m) (2 ^ nat m) ?U"
    unfolding toffoli_sum_def
    by (intro mat_madd mat_tensor_at) simp_all
  have "unitary ?U"
    using u mm by (simp add: unitary_def mat_def)
  with e mm show "\<exists>U. TOFFOLI control1 control2 target m = Inr (Mat U)
                     \<and> mat (2 ^ nat m) (2 ^ nat m) U \<and> unitary U"
    by blast
qed

lemma unitary_Y: "unitary [[0, - \<i>], [\<i>, 0]]"
  by (simp add: unitary_def dagger_def mmul_def transp_def ncols_def upt_rec ident_def
      eval_nat_numeral)

theorem controlled_operators_unitary_witness:
  "(\<exists>U. control_gate (Mat [[0, - \<i>], [\<i>, 0]]) 1 0 2 = Inr (Mat U) \<and> mat 4 4 U \<and> unitary U)
   \<and> (\<exists>U. TOFFOLI 2 0 1 3 = Inr (Mat U) \<and> mat 8 8 U \<and> unitary U)"
  using controlled_operators_unitary [of "[[0, - \<i>], [\<i>, 0]]" 1 0 2 2 1 0 3]
  by (simp add: unitary_Y mat_def)

lemma vkron_Nil [simp]: "vkron [] = [1]"
  by (simp add: vkron_def)

lemma vkron_snoc [simp]: "vkron (vs @ [v]) = krow (vkron vs) v"
  by (simp add: vkron_def)

lemma foldl_krow: "foldl krow u vs = krow u (vkron vs)"
proof (induction vs rule: rev_induct)
  case Nil
  show ?case by simp
next
  case (snoc v vs)
  then show ?case by (simp add: krow_assoc)
qed

lemma vkron_append: "vkron (us @ vs) = krow (vkron us) (vkron vs)"
  unfolding vkron_def foldl_append by (simp add: foldl_krow [of "foldl krow [1] us"] vkron_def)

lemma vkron_single [simp]: "vkron [v] = v"
  using vkron_snoc [of "[]" v] by simp

lemma foldl_np_kron_Vec:
  "\<forall>x \<in> set xs. is_Vec x \<Longrightarrow>
   foldl np_kron (Vec v) xs = Vec (foldl krow v (map flatten xs))"
proof (induction xs arbitrary: v)
  case Nil
  show ?case by simp
next
  case (Cons x xs)
  then obtain u where "x = Vec u" by (cases x) auto
  with Cons show ?case by simp
qed

lemma kron_Vecs:
  assumes "xs \<noteq> []" "\<forall>x \<in> set xs. is_Vec x"
  shows "kron xs = Inr (Vec (vkron (map flatten xs)))"
proof -
  obtain x xs' where xs: "xs = x # xs'" using assms(1) by (cases xs) auto
  then obtain v where x: "x = Vec v" using assms(2) by (cases x) auto
  have "\<forall>y \<in> set xs'. is_Vec y" using assms(2) xs by simp
  then have "foldl np_kron (Vec v) xs' = Vec (foldl krow v (map flatten xs'))"
    by (rule foldl_np_kron_Vec)
  moreover have "vkron (v # map flatten xs') = foldl krow v (map flatten xs')"
    by (simp add: vkron_def)
  ultimately show ?thesis by (simp add: xs x)
qed

lemma length_vkron:
  "\<forall>v \<in> set vs. length v = 2 \<Longrightarrow> length (vkron vs) = 2 ^ length vs"
  by (induction vs rule: rev_induct) simp_all

lemma length_mv [simp]: "length (mv A v) = length A"
  by (simp add: mv_def)

lemma mv_Nil [simp]: "mv [] v = []"
  by (simp add: mv_def)

lemma mv_Cons [simp]: "mv (r # A) v = dotv r v # mv A v"
  by (simp add: mv_def)

lemma mv_append: "mv (A @ B) v = mv A v @ mv B v"
  by (simp add: mv_def)

lemma mv_map_krow:
  assumes "\<forall>rb \<in> set B. length rb = length v"
  shows "mv (map (krow ra) B) (krow u v) = scal (dotv ra u) (mv B v)"
  using assms
proof (induction B)
  case Nil
  show ?case by simp
next
  case (Cons rb B)
  have "dotv (krow ra rb) (krow u v) = dotv ra u * dotv rb v"
    by (rule dotv_krow) (use Cons.prems in simp)
  then show ?case using Cons by simp
qed

lemma mv_kron_mat:
  assumes "\<forall>rb \<in> set B. length rb = length v"
  shows "mv (kron_mat A B) (krow u v) = krow (mv A u) (mv B v)"
  by (induction A) (simp_all add: mv_append mv_map_krow [OF assms])

lemma mv_madd:
  assumes "mat r c A" "mat r c B"
  shows "mv (madd A B) v = vadd (mv A v) (mv B v)"
proof (rule nth_equalityI)
  show "length (mv (madd A B) v) = length (vadd (mv A v) (mv B v))"
    using assms by (simp add: madd_def vadd_def mat_def)
next
  fix i assume "i < length (mv (madd A B) v)"
  then have i: "i < r" using assms by (simp add: madd_def mat_def)
  have len: "length (A ! i) = length (B ! i)"
    using matD(1) [OF assms(1) i] matD(1) [OF assms(2) i] by simp
  have "mv (madd A B) v ! i = dotv (madd A B ! i) v"
    using i mat_madd [OF assms] by (simp add: mv_def mat_def)
  also have "\<dots> = dotv (A ! i) v + dotv (B ! i) v"
    by (simp add: nth_madd [OF assms i] dotv_vadd_left [OF len])
  also have "\<dots> = vadd (mv A v) (mv B v) ! i"
    using i assms by (simp add: vadd_def mv_def mat_def)
  finally show "mv (madd A B) v ! i = vadd (mv A v) (mv B v) ! i" .
qed

lemma mv_tensor_at:
  assumes "\<And>i. i < n \<Longrightarrow> mat 2 2 (f i) \<and> length (g i) = 2"
  shows "mv (tensor_at n f) (vkron (map g [0..<n])) = vkron (map (\<lambda>i. mv (f i) (g i)) [0..<n])"
  using assms
proof (induction n)
  case 0
  show ?case by (simp add: mv_def)
next
  case (Suc n)
  have "\<forall>rb \<in> set (f n). length rb = length (g n)"
    using Suc.prems [of n] by (simp add: mat_def)
  then have "mv (kron_mat (tensor_at n f) (f n)) (krow (vkron (map g [0..<n])) (g n))
             = krow (mv (tensor_at n f) (vkron (map g [0..<n]))) (mv (f n) (g n))"
    by (rule mv_kron_mat)
  then show ?case using Suc.IH Suc.prems by (simp add: tensor_at_Suc)
qed

lemma scal_zero [simp]: "scal 0 v = replicate (length v) 0"
  by (induction v) simp_all

lemma scal_replicate_zero [simp]: "scal a (replicate k 0) = replicate k 0"
  by (induction k) simp_all

lemma krow_zero_right: "krow u (replicate k 0) = replicate (length u * k) 0"
  by (induction u) (simp_all add: replicate_add)

lemma krow_zero_left: "krow (replicate m 0) v = replicate (m * length v) 0"
  by (induction m) (simp_all add: replicate_add)

lemma vkron_zero:
  assumes c: "c < n"
    and len: "\<And>i. i < n \<Longrightarrow> length (g i) = 2"
    and z: "g c = [0, 0]"
  shows "vkron (map g [0..<n]) = replicate (2 ^ n) 0"
proof -
  let ?K = "vkron (map g [0..<c])" and ?L = "vkron (map g [Suc c..<n])"
  have lK: "length ?K = 2 ^ c"
    using length_vkron [of "map g [0..<c]"] len c by simp
  have lL: "length ?L = 2 ^ (n - Suc c)"
    using length_vkron [of "map g [Suc c..<n]"] len by simp
  have e: "c + (1 + (n - Suc c)) = n" using c by simp
  have "map g [0..<n] = (map g [0..<c] @ [g c]) @ map g [Suc c..<n]"
    using upt_split' [of 0 c n] c by simp
  then have "vkron (map g [0..<n]) = krow (krow ?K (g c)) ?L"
    by (simp only: vkron_append vkron_single)
  also have "g c = replicate 2 0" by (simp add: z eval_nat_numeral)
  also have "krow (krow ?K (replicate 2 0)) ?L = replicate (2 ^ c * 2 * 2 ^ (n - Suc c)) 0"
    by (simp add: krow_zero_right krow_zero_left lK lL)
  also have "(2::nat) ^ c * 2 * 2 ^ (n - Suc c) = 2 ^ n"
    using e by (metis power_add power_one_right mult.assoc)
  finally show ?thesis .
qed

lemma vadd_zero_right: "length v = k \<Longrightarrow> vadd v (replicate k 0) = v"
  by (induction v arbitrary: k) (auto simp: vadd_def)

lemma vadd_zero_left: "length v = k \<Longrightarrow> vadd (replicate k 0) v = v"
  by (induction v arbitrary: k) (auto simp: vadd_def)

lemma length_ket [simp]: "length (ket b) = 2"
  by (simp add: ket_def)

lemma mv_blocks:
  "mv I2 (ket b) = (ket b :: 'a::comm_ring_1 list)"
  "mv P0 (ket False) = (ket False :: 'a list)"
  "mv P0 (ket True) = ([0, 0] :: 'a list)"
  "mv P1 (ket False) = ([0, 0] :: 'a list)"
  "mv P1 (ket True) = (ket True :: 'a list)"
  by (simp_all add: ket_def I2_def P0_def P1_def)

lemma flatten_basis: "map flatten (basis bs :: 'a::comm_ring_1 ndarray list) = map ket bs"
  by (simp add: basis_def ket_def zero_def one_def)

lemma is_Vec_basis: "\<forall>x \<in> set (basis bs). is_Vec x"
  by (auto simp: basis_def zero_def one_def)

lemma map_upt_update:
  assumes "t < n"
  shows "(map g [0..<n])[t := x] = map (\<lambda>i. if i = t then x else g i) [0..<n]"
  by (rule nth_equalityI) (use assms in \<open>auto simp: nth_list_update\<close>)

lemma map_ket_positions: "map ket bs = map (\<lambda>i. ket (bs ! i)) [0..<length bs]"
  by (rule nth_equalityI) simp_all

lemma length_blocks [simp]:
  "length (P0 :: 'a::comm_ring_1 list list) = 2" "length (P1 :: 'a list list) = 2"
  "length (I2 :: 'a list list) = 2"
  by (simp_all add: P0_def P1_def I2_def)

lemma control_action:
  assumes "c < n" "t < n" "c \<noteq> t" "mat 2 2 G" "length bs = n"
  shows "mv (madd (tensor_at n (\<lambda>i. if i = c then P0 else I2))
                  (tensor_at n (\<lambda>i. if i = c then P1 else if i = t then G else I2)))
            (vkron (map ket bs))
         = (if bs ! c then vkron ((map ket bs)[t := mv G (ket (bs ! t))])
            else vkron (map ket bs))"
proof -
  let ?f0 = "\<lambda>i. if i = c then P0 else (I2 :: 'a list list)"
  let ?f1 = "\<lambda>i. if i = c then P1 else if i = t then G else (I2 :: 'a list list)"
  let ?g = "\<lambda>i. ket (bs ! i) :: 'a list"
  let ?v = "vkron (map ?g [0..<n])"
  have kv: "map ket bs = map ?g [0..<n]"
    using map_ket_positions [of bs] assms(5) by simp
  have M0: "mat (2 ^ n) (2 ^ n) (tensor_at n ?f0)" and M1: "mat (2 ^ n) (2 ^ n) (tensor_at n ?f1)"
    using assms(4) by (auto intro!: mat_tensor_at)
  have a0: "mv (tensor_at n ?f0) ?v = vkron (map (\<lambda>i. mv (?f0 i) (?g i)) [0..<n])"
    by (rule mv_tensor_at) simp
  have a1: "mv (tensor_at n ?f1) ?v = vkron (map (\<lambda>i. mv (?f1 i) (?g i)) [0..<n])"
    by (rule mv_tensor_at) (simp add: assms(4))
  have lG2: "length G = 2" using assms(4) by (simp add: mat_def)
  have lG: "length (mv G (ket (bs ! t))) = 2"
    using lG2 by simp
  have sum: "mv (madd (tensor_at n ?f0) (tensor_at n ?f1)) ?v
             = vadd (vkron (map (\<lambda>i. mv (?f0 i) (?g i)) [0..<n]))
                    (vkron (map (\<lambda>i. mv (?f1 i) (?g i)) [0..<n]))"
    by (simp only: mv_madd [OF M0 M1] a0 a1)
  show ?thesis
  proof (cases "bs ! c")
    case True
    have z: "vkron (map (\<lambda>i. mv (?f0 i) (?g i)) [0..<n]) = replicate (2 ^ n) 0"
      by (rule vkron_zero [OF assms(1)]) (simp_all add: True mv_blocks)
    have "map (\<lambda>i. mv (?f1 i) (?g i)) [0..<n]
          = map (\<lambda>i. if i = t then mv G (ket (bs ! t)) else ?g i) [0..<n]"
      by (rule map_cong) (use assms(3) in \<open>auto simp: True mv_blocks\<close>)
    also have "\<dots> = (map ?g [0..<n])[t := mv G (ket (bs ! t))]"
      by (rule map_upt_update [OF assms(2), symmetric])
    finally have o: "map (\<lambda>i. mv (?f1 i) (?g i)) [0..<n]
                     = (map ket bs)[t := mv G (ket (bs ! t))]"
      by (simp only: kv)
    have "\<forall>v \<in> set ((map ket bs)[t := mv G (ket (bs ! t))]). length v = 2"
    proof
      fix v :: "'a list"
      assume "v \<in> set ((map ket bs)[t := mv G (ket (bs ! t))])"
      then have "v \<in> insert (mv G (ket (bs ! t))) (set (map ket bs))"
        by (rule set_update_subset_insert [THEN subsetD])
      then show "length v = 2" using lG by auto
    qed
    then have len: "length (vkron ((map ket bs)[t := mv G (ket (bs ! t))])) = 2 ^ n"
      using length_vkron [of "(map ket bs)[t := mv G (ket (bs ! t))]"] assms(5) by simp
    show ?thesis
      unfolding kv sum z unfolding o kv [symmetric]
      using True by (simp add: vadd_zero_left [OF len])
  next
    case False
    have z: "vkron (map (\<lambda>i. mv (?f1 i) (?g i)) [0..<n]) = replicate (2 ^ n) 0"
      by (rule vkron_zero [OF assms(1)]) (simp_all add: False mv_blocks lG2)
    have o: "map (\<lambda>i. mv (?f0 i) (?g i)) [0..<n] = map ?g [0..<n]"
      by (rule map_cong) (auto simp: False mv_blocks)
    have len: "length (vkron (map ?g [0..<n])) = 2 ^ n"
      using length_vkron [of "map ?g [0..<n]"] by simp
    show ?thesis
      unfolding kv sum z o using False by (simp add: vadd_zero_right [OF len])
  qed
qed

lemma control_gate_on_basis:
  assumes "1 \<le> n" "0 \<le> c" "c \<le> n - 1" "0 \<le> t" "t \<le> n - 1" "c \<noteq> t" "mat 2 2 G"
    and "length bs = nat n"
  shows "then_e (control_gate (Mat G) c t n)
           (\<lambda>U. then_e (kron (basis bs)) (\<lambda>v. np_matmul U v))
         = (if bs ! nat c then kron ((basis bs)[nat t := Vec (mv G (ket (bs ! nat t)))])
            else kron (basis bs))"
proof -
  let ?U = "madd (tensor_at (nat n) (\<lambda>i. if i = nat c then P0 else I2))
                 (tensor_at (nat n) (\<lambda>i. if i = nat c then P1 else if i = nat t then G else I2))"
  have e: "control_gate (Mat G) c t n = Inr (Mat ?U)" and m: "mat (2 ^ nat n) (2 ^ nat n) ?U"
    using control_gate_eq [OF assms(1-7)] by simp_all
  have ne: "basis bs \<noteq> ([] :: 'a ndarray list)"
    using assms(1,8) by (auto simp: basis_def)
  have kb: "kron (basis bs) = Inr (Vec (vkron (map ket bs :: 'a list list)))"
    using kron_Vecs [OF ne is_Vec_basis] by (simp add: flatten_basis)
  have lv: "length (vkron (map ket bs :: 'a list list)) = 2 ^ nat n"
    using length_vkron [of "map ket bs :: 'a list list"] assms(8) by simp
  have nc: "ncols ?U = 2 ^ nat n"
    by (rule ncols_mat [OF m]) simp
  have lhs: "then_e (control_gate (Mat G) c t n)
               (\<lambda>U. then_e (kron (basis bs)) (\<lambda>v. np_matmul U v))
             = Inr (Vec (mv ?U (vkron (map ket bs))))"
    unfolding e kb then_e_Inr by (simp add: nc lv mv_def)
  have act: "mv ?U (vkron (map ket bs))
             = (if bs ! nat c then vkron ((map ket bs)[nat t := mv G (ket (bs ! nat t))])
                else vkron (map ket bs))"
    by (rule control_action) (use assms in auto)
  let ?xs = "(basis bs)[nat t := Vec (mv G (ket (bs ! nat t)))]"
  have ne': "?xs \<noteq> []" using ne by simp
  have vs: "\<forall>x \<in> set ?xs. is_Vec x"
  proof
    fix x assume "x \<in> set ?xs"
    then have "x \<in> insert (Vec (mv G (ket (bs ! nat t)))) (set (basis bs))"
      by (rule set_update_subset_insert [THEN subsetD])
    then show "is_Vec x" using is_Vec_basis [of bs] by auto
  qed
  have ku: "kron ?xs = Inr (Vec (vkron ((map ket bs)[nat t := mv G (ket (bs ! nat t))])))"
    using kron_Vecs [OF ne' vs] by (simp add: map_update flatten_basis)
  show ?thesis
    unfolding lhs act by (simp add: kb ku)
qed

text \<open>
  C1. For a register of \<open>n \<ge> 1\<close> qubits, a 2 x 2 gate \<open>G\<close> and distinct control
  \<open>c\<close> and target \<open>t\<close> between 0 and \<open>n - 1\<close>, in either order,
  \<open>control_gate\<close> returns the \<open>2^n x 2^n\<close> matrix that is the sum of two tensor
  products over the positions \<open>0, ..., n - 1\<close>: the projector on \<open>|0>\<close> at
  position \<open>c\<close> with the identity at every other position, plus the projector on
  \<open>|1>\<close> at position \<open>c\<close>, \<open>G\<close> at position \<open>t\<close> and the identity elsewhere.
  Applied to the basis vector of a register state \<open>bs\<close>, this operator returns the
  vector with \<open>G\<close> applied to qubit \<open>t\<close> when qubit \<open>c\<close> is \<open>|1>\<close>, and
  the basis vector unchanged otherwise.
\<close>

theorem control_gate_tensor:
  assumes "1 \<le> n" "0 \<le> c" "c \<le> n - 1" "0 \<le> t" "t \<le> n - 1" "c \<noteq> t" "mat 2 2 G"
  shows "control_gate (Mat G) c t n
         = Inr (Mat (madd (tensor_at (nat n) (\<lambda>i. if i = nat c then P0 else I2))
                          (tensor_at (nat n)
                             (\<lambda>i. if i = nat c then P1 else if i = nat t then G else I2))))
         \<and> mat (2 ^ nat n) (2 ^ nat n)
               (madd (tensor_at (nat n) (\<lambda>i. if i = nat c then P0 else I2))
                     (tensor_at (nat n)
                        (\<lambda>i. if i = nat c then P1 else if i = nat t then G else I2)))
         \<and> (\<forall>bs. length bs = nat n \<longrightarrow>
               then_e (control_gate (Mat G) c t n)
                 (\<lambda>U. then_e (kron (basis bs)) (\<lambda>v. np_matmul U v))
               = (if bs ! nat c
                  then kron ((basis bs)[nat t := Vec (mv G (ket (bs ! nat t)))])
                  else kron (basis bs)))"
  using control_gate_eq [OF assms] control_gate_on_basis [OF assms] by blast

theorem control_gate_tensor_witness:
  "control_gate (Mat [[5, 6], [7, 8 :: int]]) 1 0 2
     = Inr (Mat [[1, 0, 0, 0], [0, 5, 0, 6], [0, 0, 1, 0], [0, 7, 0, 8]])
   \<and> control_gate (Mat [[5, 6], [7, 8 :: int]]) 0 1 2
     = Inr (Mat [[1, 0, 0, 0], [0, 1, 0, 0], [0, 0, 5, 6], [0, 0, 7, 8]])
   \<and> then_e (control_gate (Mat [[5, 6], [7, 8 :: int]]) 1 0 2)
        (\<lambda>U. then_e (kron [zero, one]) (\<lambda>v. np_matmul U v))
     = Inr (Vec [0, 5, 0, 7])
   \<and> then_e (control_gate (Mat [[5, 6], [7, 8 :: int]]) 1 0 2)
        (\<lambda>U. then_e (kron [one, zero]) (\<lambda>v. np_matmul U v))
     = kron [one, zero]"
proof -
  have h: "mat 2 2 [[5, 6], [7, 8 :: int]]" by (simp add: mat_def)
  have p: "(1::int) \<le> 2" "(0::int) \<le> 1" "(1::int) \<le> 2 - 1" "(0::int) \<le> 0"
    "(0::int) \<le> 2 - 1" "(1::int) \<noteq> 0" "(0::int) \<noteq> 1"
    by simp_all
  note w1 = control_gate_tensor [OF p(1) p(2) p(3) p(4) p(5) p(6) h]
  note w2 = control_gate_tensor [OF p(1) p(4) p(5) p(2) p(3) p(7) h]
  have a: "control_gate (Mat [[5, 6], [7, 8 :: int]]) 1 0 2
           = Inr (Mat [[1, 0, 0, 0], [0, 5, 0, 6], [0, 0, 1, 0], [0, 7, 0, 8]])"
    using w1 by (simp add: tensor_eval)
  have b: "control_gate (Mat [[5, 6], [7, 8 :: int]]) 0 1 2
           = Inr (Mat [[1, 0, 0, 0], [0, 1, 0, 0], [0, 0, 5, 6], [0, 0, 7, 8]])"
    using w2 by (simp add: tensor_eval)
  have c: "then_e (control_gate (Mat [[5, 6], [7, 8 :: int]]) 1 0 2)
             (\<lambda>U. then_e (kron [zero, one]) (\<lambda>v. np_matmul U v)) = Inr (Vec [0, 5, 0, 7])"
    using w1 [THEN conjunct2, THEN conjunct2, rule_format, of "[False, True]"]
    by (simp add: basis_def mv_def ket_def zero_def one_def krow_def scal_def)
  have d: "then_e (control_gate (Mat [[5, 6], [7, 8 :: int]]) 1 0 2)
             (\<lambda>U. then_e (kron [one, zero]) (\<lambda>v. np_matmul U v)) = kron [one, zero]"
    using w1 [THEN conjunct2, THEN conjunct2, rule_format, of "[True, False]"]
    by (simp add: basis_def)
  from a b c d show ?thesis by blast
qed

section \<open>The fold\<close>

text \<open>
  C9. \<open>kron\<close> is a left fold of the Kronecker product: on a one-element list it returns
  the element, and on \<open>[A, B, C]\<close> it returns what it returns on
  \<open>[kron [A, B], C]\<close>; the inner call succeeds, with the Kronecker product of
  \<open>A\<close> and \<open>B\<close>.
\<close>

theorem kron_left_fold:
  "kron [A] = Inr A
   \<and> kron [A, B] = Inr (np_kron A B)
   \<and> kron [A, B, C] = then_e (kron [A, B]) (\<lambda>AB. kron [AB, C])
   \<and> kron [A, B, C] = Inr (np_kron (np_kron A B) C)"
  by (simp add: then_e_def)

section \<open>Concrete registers\<close>

text \<open>
  C2. On a 3-qubit register with controls 0 and 1 and target 2, the Toffoli matrix sends
  the basis vector of \<open>|1,1,0>\<close> (index 6) to the basis vector of \<open>|1,1,1>\<close>
  (index 7), and leaves the basis vector of \<open>|1,0,0>\<close> (index 4), where only one
  control is on, unchanged.
\<close>

theorem toffoli_basis_states:
  "then_e (TOFFOLI 0 1 2 3) (\<lambda>U. np_matmul U (Vec [0, 0, 0, 0, 0, 0, 1, 0]))
     = Inr (Vec [0, 0, 0, 0, 0, 0, 0, 1 :: 'a::comm_ring_1])
   \<and> then_e (TOFFOLI 0 1 2 3) (\<lambda>U. np_matmul U (Vec [0, 0, 0, 0, 1, 0, 0, 0]))
     = Inr (Vec [0, 0, 0, 0, 1, 0, 0, 0 :: 'a])
   \<and> kron [one, one, zero] = Inr (Vec [0, 0, 0, 0, 0, 0, 1, 0 :: 'a])
   \<and> kron [one, one, one] = Inr (Vec [0, 0, 0, 0, 0, 0, 0, 1 :: 'a])
   \<and> kron [one, zero, zero] = Inr (Vec [0, 0, 0, 0, 1, 0, 0, 0 :: 'a])"
  by (simp add: TOFFOLI_def sum4_def gate_defs)

theorem toffoli_basis_states_witness:
  "then_e (TOFFOLI 0 1 2 3) (\<lambda>U. then_e (kron [one, one, zero]) (\<lambda>v. np_matmul U v))
     = (kron [one, one, one] :: error + int ndarray)"
  using toffoli_basis_states [where ?'a = int] by (simp add: then_e_def)

text \<open>
  C7. \<open>generate_ghz_state 3\<close> returns the vector of 8 amplitudes that is
  \<open>1 / sqrt 2\<close> at index 0 and at index 7 and 0 elsewhere.
\<close>

theorem generate_ghz_state_3:
  "generate_ghz_state 3 = Inr (Vec [1 / sqrt 2, 0, 0, 0, 0, 0, 0, 1 / sqrt 2])"
  by (simp add: generate_ghz_state_def add_gate_def H_def cnot_adj_def upto.simps
      eval_nat_numeral gate_defs)

end
